theory Spec2Isabelle
  imports Main
begin

section \<open>The ordered data-source collection (DataSourceCollection.js)\<close>

subsection \<open>Data model\<close>

text \<open>
  A data source is a JavaScript object owned by the caller; the collection holds references
  to it and writes two shadow properties onto it. Object identity is a reference
  (\<open>handle\<close>), and the objects live in an explicit store, so that two array slots holding
  the same reference share one object.

  The properties of a data source that the collection touches:
  \<^item> \<open>show_cur\<close> is the property \<^verbatim>\<open>show\<close> (the name \<open>show\<close> is an Isar keyword);
  \<^item> \<open>show_last\<close> is the property \<^verbatim>\<open>_show\<close>;
  \<^item> \<open>dataSourceIndex\<close> is the property \<^verbatim>\<open>_dataSourceIndex\<close>.
  \<open>None\<close> is JavaScript's \<^verbatim>\<open>undefined\<close>.
\<close>

type_synonym handle = nat

record dataSource =
  show_cur :: "bool option"
  show_last :: "bool option"
  dataSourceIndex :: "int option"

text \<open>
  What the collection does to the outside world, in the order it does it: the four events
  it raises (each with the arguments passed to \<^verbatim>\<open>raiseEvent\<close>) and the calls of a data
  source's own \<^verbatim>\<open>destroy()\<close>.
\<close>

datatype event =
    DataSourceAdded handle int
  | DataSourceRemoved handle int
  | DataSourceMoved handle int int
  | DataSourceShownOrHidden handle "int option" "bool option"
  | DestroyCalled handle

text \<open>
  The state: the array \<^verbatim>\<open>_dataSources\<close>, the object store, the trace of effects so far,
  and the mark left by \<^verbatim>\<open>destroyObject\<close>.
\<close>

record state =
  dataSources :: "handle list"
  objs :: "handle \<Rightarrow> dataSource"
  trace :: "event list"
  unusable :: bool

datatype error = DeveloperError string

datatype jsval = Undefined | Bool bool | Num int | Ref handle

type_synonym result = "(error + jsval) \<times> state"

text \<open>The constructor: an empty array over a given object store.\<close>

definition DataSourceCollection :: "(handle \<Rightarrow> dataSource) \<Rightarrow> state" where
  "DataSourceCollection hp = \<lparr>dataSources = [], objs = hp, trace = [], unusable = False\<rparr>"

text \<open>The caller assigning the \<^verbatim>\<open>show\<close> property of a data source.\<close>

definition set_show :: "state \<Rightarrow> handle \<Rightarrow> bool option \<Rightarrow> state" where
  "set_show s d v = s\<lparr>objs := (objs s)(d := (objs s d)\<lparr>show_cur := v\<rparr>)\<rparr>"

subsection \<open>Library functions the code calls\<close>

text \<open>
  Modelled from the spec: \<^verbatim>\<open>Event.raiseEvent\<close> (Core/Event.js is not part of the sources at
  hand), a synchronous dispatch to the subscribers at the moment of emission. The dispatch
  is recorded, with its arguments, at the end of the trace.
\<close>

definition raiseEvent :: "state \<Rightarrow> event \<Rightarrow> state" where
  "raiseEvent s e = s\<lparr>trace := trace s @ [e]\<rparr>"

text \<open>
  Modelled from the spec: \<^verbatim>\<open>dataSource.destroy()\<close>, the destroy capability of a data
  source, which is opaque to the collection. The call is recorded at the end of the trace.
\<close>

definition callDestroy :: "state \<Rightarrow> handle \<Rightarrow> state" where
  "callDestroy s d = s\<lparr>trace := trace s @ [DestroyCalled d]\<rparr>"

text \<open>
  \<^verbatim>\<open>Array.prototype.indexOf\<close>: the index of the first element strictly equal to the
  argument, or -1. The array holds object references only, so \<^verbatim>\<open>undefined\<close> is never found.
\<close>

fun indexOf_from :: "handle list \<Rightarrow> handle \<Rightarrow> int \<Rightarrow> int" where
  "indexOf_from [] d i = - 1"
| "indexOf_from (x # xs) d i = (if x = d then i else indexOf_from xs d (i + 1))"

definition array_indexOf :: "handle list \<Rightarrow> handle option \<Rightarrow> int" where
  "array_indexOf arr dataSource =
     (case dataSource of None \<Rightarrow> - 1 | Some d \<Rightarrow> indexOf_from arr d 0)"

text \<open>\<^verbatim>\<open>arr.splice(index, 1)\<close> and \<^verbatim>\<open>arr.splice(index, 0, d)\<close>, for an index within the array.\<close>

definition splice_remove :: "handle list \<Rightarrow> nat \<Rightarrow> handle list" where
  "splice_remove arr i = take i arr @ drop (Suc i) arr"

definition splice_insert :: "handle list \<Rightarrow> nat \<Rightarrow> handle \<Rightarrow> handle list" where
  "splice_insert arr i d = take i arr @ d # drop i arr"

text \<open>
  Modelled from the spec: \<^verbatim>\<open>defaultValue\<close> (Core/defaultValue.js is not part of the
  sources at hand); the contract writes \<^verbatim>\<open>destroy = true\<close> for the omitted argument.
\<close>

definition defaultValue :: "'a option \<Rightarrow> 'a \<Rightarrow> 'a" where
  "defaultValue a b = (case a of None \<Rightarrow> b | Some v \<Rightarrow> v)"

text \<open>
  Modelled from the spec: \<^verbatim>\<open>CesiumMath.clamp\<close> (Core/Math.js is not part of the sources
  at hand); index arguments of the swap helper are clamped into the given range.
\<close>

definition clamp :: "int \<Rightarrow> int \<Rightarrow> int \<Rightarrow> int" where
  "clamp v lo hi = (if v < lo then lo else if v > hi then hi else v)"

subsection \<open>The re-index and visibility pass\<close>

text \<open>
  The first loop of \<^verbatim>\<open>_update\<close>: walks the array with the counter \<open>i\<close>, writes the shadow
  properties and collects \<^verbatim>\<open>dataSourcesShownOrHidden\<close> (\<open>None\<close> while still undefined).
\<close>

fun update_walk ::
  "handle list \<Rightarrow> int \<Rightarrow> (handle \<Rightarrow> dataSource) \<Rightarrow> handle list option
     \<Rightarrow> (handle \<Rightarrow> dataSource) \<times> handle list option" where
  "update_walk [] i hp acc = (hp, acc)"
| "update_walk (d # ds) i hp acc =
     (let hp1 = hp(d := (hp d)\<lparr>dataSourceIndex := Some i\<rparr>) in
      if show_cur (hp1 d) \<noteq> show_last (hp1 d) then
        (let acc1 = (if show_last (hp1 d) \<noteq> None
                     then Some ((case acc of None \<Rightarrow> [] | Some a \<Rightarrow> a) @ [d])
                     else acc);
             hp2 = hp1(d := (hp1 d)\<lparr>show_last := show_cur (hp1 d)\<rparr>)
         in update_walk ds (i + 1) hp2 acc1)
      else update_walk ds (i + 1) hp1 acc)"

text \<open>The second loop of \<^verbatim>\<open>_update\<close>: one event for each collected data source.\<close>

fun update_notify :: "handle list \<Rightarrow> state \<Rightarrow> state" where
  "update_notify [] s = s"
| "update_notify (d # ds) s =
     update_notify ds
       (raiseEvent s (DataSourceShownOrHidden d (dataSourceIndex (objs s d)) (show_cur (objs s d))))"

definition update :: "state \<Rightarrow> state" where
  "update s =
     (case update_walk (dataSources s) 0 (objs s) None of
        (hp, dataSourcesShownOrHidden) \<Rightarrow>
          (let s1 = s\<lparr>objs := hp\<rparr> in
           case dataSourcesShownOrHidden of
             None \<Rightarrow> s1
           | Some l \<Rightarrow> update_notify l s1))"

subsection \<open>The public operations\<close>

text \<open>
  Every operation yields its outcome, a thrown error or the value returned, together with
  the state it leaves. A function that ends without a return statement returns
  \<^verbatim>\<open>undefined\<close>, and so does \<^verbatim>\<open>add\<close>. An argument is \<open>None\<close> when it is omitted; index
  arguments are integers.
\<close>

definition add :: "state \<Rightarrow> handle option \<Rightarrow> int option \<Rightarrow> result" where
  "add s dataSource index =
     (case dataSource of
        None \<Rightarrow> (Inl (DeveloperError ''dataSource is required.''), s)
      | Some d \<Rightarrow>
          (case index of
             None \<Rightarrow>
               (let index1 = int (length (dataSources s));
                    s1 = s\<lparr>dataSources := dataSources s @ [d]\<rparr>;
                    s2 = update s1;
                    s3 = raiseEvent s2 (DataSourceAdded d index1)
                in (Inr Undefined, s3))
           | Some i \<Rightarrow>
               if i < 0 then
                 (Inl (DeveloperError ''index must be greater than or equal to zero.''), s)
               else if i > int (length (dataSources s)) then
                 (Inl (DeveloperError
                    ''index must be less than or equal to the number of data sources.''), s)
               else
                 (let s1 = s\<lparr>dataSources := splice_insert (dataSources s) (nat i) d\<rparr>;
                      s2 = update s1;
                      s3 = raiseEvent s2 (DataSourceAdded d i)
                  in (Inr Undefined, s3))))"

text \<open>
  In \<^verbatim>\<open>remove\<close> the index is that of \<^verbatim>\<open>indexOf\<close>; for \<^verbatim>\<open>undefined\<close> it is -1, so the \<open>None\<close>
  branch is the source's \<^verbatim>\<open>return false\<close>.
\<close>

definition remove :: "state \<Rightarrow> handle option \<Rightarrow> bool option \<Rightarrow> result" where
  "remove s dataSource destroy0 =
     (let destroy1 = defaultValue destroy0 True;
          index = array_indexOf (dataSources s) dataSource
      in case dataSource of
           Some d \<Rightarrow>
             if index \<noteq> - 1 then
               (let s1 = s\<lparr>dataSources := splice_remove (dataSources s) (nat index)\<rparr>;
                    s2 = update s1;
                    s3 = raiseEvent s2 (DataSourceRemoved d index);
                    s4 = (if destroy1 then callDestroy s3 d else s3)
                in (Inr (Bool True), s4))
             else (Inr (Bool False), s)
         | None \<Rightarrow> (Inr (Bool False), s))"

text \<open>The loop of \<^verbatim>\<open>removeAll\<close>, with its counter \<open>i\<close>.\<close>

fun removeAll_loop :: "handle list \<Rightarrow> int \<Rightarrow> bool \<Rightarrow> state \<Rightarrow> state" where
  "removeAll_loop [] i destroy1 s = s"
| "removeAll_loop (d # ds) i destroy1 s =
     (let s1 = raiseEvent s (DataSourceRemoved d i);
          s2 = (if destroy1 then callDestroy s1 d else s1)
      in removeAll_loop ds (i + 1) destroy1 s2)"

definition removeAll_ds :: "state \<Rightarrow> bool option \<Rightarrow> result" where
  "removeAll_ds s destroy0 =
     (let destroy1 = defaultValue destroy0 True;
          s1 = removeAll_loop (dataSources s) 0 destroy1 s
      in (Inr Undefined, s1\<lparr>dataSources := []\<rparr>))"

definition indexOf :: "state \<Rightarrow> handle option \<Rightarrow> result" where
  "indexOf s dataSource = (Inr (Num (array_indexOf (dataSources s) dataSource)), s)"

definition contains :: "state \<Rightarrow> handle option \<Rightarrow> result" where
  "contains s dataSource = (Inr (Bool (array_indexOf (dataSources s) dataSource \<noteq> - 1)), s)"

definition get :: "state \<Rightarrow> int option \<Rightarrow> result" where
  "get s index =
     (case index of
        None \<Rightarrow> (Inl (DeveloperError ''index is required.''), s)
      | Some i \<Rightarrow>
          if 0 \<le> i \<and> i < int (length (dataSources s))
          then (Inr (Ref (dataSources s ! nat i)), s)
          else (Inr Undefined, s))"

definition getLength :: "state \<Rightarrow> result" where
  "getLength s = (Inr (Num (int (length (dataSources s)))), s)"

definition getDataSourceIndex :: "handle list \<Rightarrow> handle option \<Rightarrow> error + int" where
  "getDataSourceIndex arr dataSource =
     (case dataSource of
        None \<Rightarrow> Inl (DeveloperError ''dataSource is required.'')
      | Some d \<Rightarrow>
          (let index = array_indexOf arr dataSource in
           if index = - 1 then Inl (DeveloperError ''dataSource is not in this collection.'')
           else Inr index))"

definition swapDataSources :: "state \<Rightarrow> int \<Rightarrow> int \<Rightarrow> state" where
  "swapDataSources s i0 j0 =
     (let arr = dataSources s;
          i = clamp i0 0 (int (length arr) - 1);
          j = clamp j0 0 (int (length arr) - 1)
      in if i = j then s
         else
           (let temp = arr ! nat i;
                arr1 = arr[nat i := arr ! nat j];
                arr2 = arr1[nat j := temp];
                s1 = update (s\<lparr>dataSources := arr2\<rparr>)
            in raiseEvent s1 (DataSourceMoved temp j i)))"

definition raise :: "state \<Rightarrow> handle option \<Rightarrow> result" where
  "raise s dataSource =
     (case getDataSourceIndex (dataSources s) dataSource of
        Inl e \<Rightarrow> (Inl e, s)
      | Inr index \<Rightarrow> (Inr Undefined, swapDataSources s index (index + 1)))"

definition lower :: "state \<Rightarrow> handle option \<Rightarrow> result" where
  "lower s dataSource =
     (case getDataSourceIndex (dataSources s) dataSource of
        Inl e \<Rightarrow> (Inl e, s)
      | Inr index \<Rightarrow> (Inr Undefined, swapDataSources s index (index - 1)))"

text \<open>
  In \<^verbatim>\<open>raiseToTop\<close> and \<^verbatim>\<open>lowerToBottom\<close> the argument is a reference once
  \<^verbatim>\<open>getDataSourceIndex\<close> has returned: it has thrown on \<^verbatim>\<open>undefined\<close> already, so the
  \<open>None\<close> branch of the inner case is never taken.
\<close>

definition raiseToTop :: "state \<Rightarrow> handle option \<Rightarrow> result" where
  "raiseToTop s dataSource =
     (case getDataSourceIndex (dataSources s) dataSource of
        Inl e \<Rightarrow> (Inl e, s)
      | Inr index \<Rightarrow>
          (case dataSource of
             None \<Rightarrow> (Inl (DeveloperError ''dataSource is required.''), s)
           | Some d \<Rightarrow>
               if index = int (length (dataSources s)) - 1 then (Inr Undefined, s)
               else
                 (let s1 = s\<lparr>dataSources := splice_remove (dataSources s) (nat index)\<rparr>;
                      s2 = s1\<lparr>dataSources := dataSources s1 @ [d]\<rparr>;
                      s3 = update s2
                  in (Inr Undefined,
                      raiseEvent s3
                        (DataSourceMoved d (int (length (dataSources s3)) - 1) index)))))"

definition lowerToBottom :: "state \<Rightarrow> handle option \<Rightarrow> result" where
  "lowerToBottom s dataSource =
     (case getDataSourceIndex (dataSources s) dataSource of
        Inl e \<Rightarrow> (Inl e, s)
      | Inr index \<Rightarrow>
          (case dataSource of
             None \<Rightarrow> (Inl (DeveloperError ''dataSource is required.''), s)
           | Some d \<Rightarrow>
               if index = 0 then (Inr Undefined, s)
               else
                 (let s1 = s\<lparr>dataSources := splice_remove (dataSources s) (nat index)\<rparr>;
                      s2 = s1\<lparr>dataSources := splice_insert (dataSources s1) 0 d\<rparr>;
                      s3 = update s2
                  in (Inr Undefined, raiseEvent s3 (DataSourceMoved d 0 index)))))"

definition isDestroyed :: "state \<Rightarrow> result" where
  "isDestroyed s = (Inr (Bool False), s)"

text \<open>
  Modelled from the spec: \<^verbatim>\<open>destroyObject\<close> (Core/destroyObject.js is not part of the
  sources at hand). The spec has \<^verbatim>\<open>destroy()\<close> mark the registry unusable, after which any
  call other than the is-destroyed check fails with the destroyed-state error. The mark is
  the field \<open>unusable\<close>; \<open>invoke\<close> below is a method call on the instance and honours it.
  The message is the one the source's doc comments give for that exception.
\<close>

definition destroyObject :: "state \<Rightarrow> result" where
  "destroyObject s = (Inr Undefined, s\<lparr>unusable := True\<rparr>)"

definition destroy :: "state \<Rightarrow> result" where
  "destroy s = (case removeAll_ds s (Some True) of (r, s1) \<Rightarrow> destroyObject s1)"

subsection \<open>Method calls on an instance\<close>

datatype call =
    Add "handle option" "int option"
  | Remove "handle option" "bool option"
  | RemoveAll "bool option"
  | Contains "handle option"
  | IndexOf "handle option"
  | Get "int option"
  | GetLength
  | Raise "handle option"
  | Lower "handle option"
  | RaiseToTop "handle option"
  | LowerToBottom "handle option"
  | IsDestroyed
  | Destroy

text \<open>The methods of the prototype, as the source defines them.\<close>

fun prototype_call :: "state \<Rightarrow> call \<Rightarrow> result" where
  "prototype_call s (Add d i) = add s d i"
| "prototype_call s (Remove d b) = remove s d b"
| "prototype_call s (RemoveAll b) = removeAll_ds s b"
| "prototype_call s (Contains d) = contains s d"
| "prototype_call s (IndexOf d) = indexOf s d"
| "prototype_call s (Get i) = get s i"
| "prototype_call s GetLength = getLength s"
| "prototype_call s (Raise d) = raise s d"
| "prototype_call s (Lower d) = lower s d"
| "prototype_call s (RaiseToTop d) = raiseToTop s d"
| "prototype_call s (LowerToBottom d) = lowerToBottom s d"
| "prototype_call s IsDestroyed = isDestroyed s"
| "prototype_call s Destroy = destroy s"

text \<open>
  Modelled from the spec: a method call on an instance that \<^verbatim>\<open>destroyObject\<close> may have
  marked. On a marked instance the is-destroyed check answers true and every other call
  throws; on an unmarked instance the prototype's method runs.
\<close>

definition invoke :: "state \<Rightarrow> call \<Rightarrow> result" where
  "invoke s c =
     (if unusable s then
        (case c of
           IsDestroyed \<Rightarrow> (Inr (Bool True), s)
         | _ \<Rightarrow> (Inl (DeveloperError ''This object was destroyed, i.e., destroy() was called.''), s))
      else prototype_call s c)"

text \<open>The structural mutations of the glossary.\<close>

fun mutating :: "call \<Rightarrow> bool" where
  "mutating (Add d i) = True"
| "mutating (Remove d b) = True"
| "mutating (RemoveAll b) = True"
| "mutating (Raise d) = True"
| "mutating (Lower d) = True"
| "mutating (RaiseToTop d) = True"
| "mutating (LowerToBottom d) = True"
| "mutating c = False"

subsection \<open>Notions used to state the properties\<close>

text \<open>
  A data source has a pending transition when its \<^verbatim>\<open>show\<close> differs from a defined
  \<^verbatim>\<open>_show\<close>. \<open>first_occurrences\<close> lists the references of an array in the order in which a
  walk meets them for the first time.
\<close>

definition transitioned :: "(handle \<Rightarrow> dataSource) \<Rightarrow> handle \<Rightarrow> bool" where
  "transitioned hp d \<longleftrightarrow> show_cur (hp d) \<noteq> show_last (hp d) \<and> show_last (hp d) \<noteq> None"

fun first_occurrences :: "handle list \<Rightarrow> handle list" where
  "first_occurrences [] = []"
| "first_occurrences (d # ds) = d # filter (\<lambda>x. x \<noteq> d) (first_occurrences ds)"

definition olist :: "handle list option \<Rightarrow> handle list" where
  "olist acc = (case acc of None \<Rightarrow> [] | Some a \<Rightarrow> a)"

text \<open>
  A concrete run for the examples: three data sources A, B, C (the references 10, 20, 30)
  with \<^verbatim>\<open>show\<close> true, false, true and no shadow properties yet, added in this order to a
  fresh collection.
\<close>

definition store0 :: "handle \<Rightarrow> dataSource" where
  "store0 h = \<lparr>show_cur = Some (h \<noteq> 20), show_last = None, dataSourceIndex = None\<rparr>"

definition coll_ABC :: state where
  "coll_ABC =
     snd (add (snd (add (snd (add (DataSourceCollection store0) (Some 10) None)) (Some 20) None))
            (Some 30) None)"

text \<open>
  The events of one pass over the state \<open>s\<close>, and the events of the loop of
  \<^verbatim>\<open>removeAll\<close> over an array.
\<close>

definition pass_events :: "state \<Rightarrow> event list" where
  "pass_events s =
     map (\<lambda>d. DataSourceShownOrHidden d (dataSourceIndex (objs (update s) d)) (show_cur (objs s d)))
       (filter (transitioned (objs s)) (first_occurrences (dataSources s)))"

definition removeAll_events :: "handle list \<Rightarrow> bool \<Rightarrow> event list" where
  "removeAll_events ds destroy1 =
     concat (map (\<lambda>k. DataSourceRemoved (ds ! k) (int k) #
                        (if destroy1 then [DestroyCalled (ds ! k)] else []))
               [0..<length ds])"

text \<open>
  The index arguments \<^verbatim>\<open>add\<close> accepts, the index at which it then inserts, and the state
  with the data source inserted there.
\<close>

definition valid_index :: "state \<Rightarrow> int option \<Rightarrow> bool" where
  "valid_index s index =
     (case index of None \<Rightarrow> True | Some i \<Rightarrow> 0 \<le> i \<and> i \<le> int (length (dataSources s)))"

definition insertion_index :: "state \<Rightarrow> int option \<Rightarrow> int" where
  "insertion_index s index =
     (case index of None \<Rightarrow> int (length (dataSources s)) | Some i \<Rightarrow> i)"

definition inserted :: "state \<Rightarrow> handle \<Rightarrow> int option \<Rightarrow> state" where
  "inserted s d index =
     s\<lparr>dataSources := take (nat (insertion_index s index)) (dataSources s) @ d #
                         drop (nat (insertion_index s index)) (dataSources s)\<rparr>"

text \<open>
  The states the reordering operations run the pass on: two slots exchanged, a data source
  taken out and put last, or put first; and the state a pass and one further event leave.
\<close>

definition swapped :: "state \<Rightarrow> nat \<Rightarrow> nat \<Rightarrow> state" where
  "swapped s i j =
     s\<lparr>dataSources := (dataSources s)[i := dataSources s ! j, j := dataSources s ! i]\<rparr>"

definition moved_last :: "state \<Rightarrow> handle \<Rightarrow> state" where
  "moved_last s d = s\<lparr>dataSources := remove1 d (dataSources s) @ [d]\<rparr>"

definition moved_first :: "state \<Rightarrow> handle \<Rightarrow> state" where
  "moved_first s d = s\<lparr>dataSources := d # remove1 d (dataSources s)\<rparr>"

definition after_pass :: "state \<Rightarrow> event \<Rightarrow> state" where
  "after_pass s1 e = (update s1)\<lparr>trace := trace s1 @ pass_events s1 @ [e]\<rparr>"

text \<open>The index \<^verbatim>\<open>indexOf\<close> finds for a member: that of its first occurrence.\<close>

definition first_index :: "state \<Rightarrow> handle \<Rightarrow> nat" where
  "first_index s d = nat (array_indexOf (dataSources s) (Some d))"

text \<open>
  Index consistency: every slot's data source has the slot's index as its stored position.
\<close>

definition position_invariant :: "state \<Rightarrow> bool" where
  "position_invariant s =
     list_all (\<lambda>k. dataSourceIndex (objs s (dataSources s ! k)) = Some (int k))
       [0..<length (dataSources s)]"

text \<open>The data source A added twice to a fresh collection.\<close>

definition added_twice :: state where
  "added_twice =
     snd (add (snd (add (DataSourceCollection store0) (Some 10) None)) (Some 10) None)"




section \<open>Properties\<close>

subsection \<open>Lists and the built-in array functions\<close>

lemma set_first_occurrences: "set (first_occurrences ds) = set ds"
  by (induction ds) auto

lemma distinct_first_occurrences: "distinct (first_occurrences ds)"
  by (induction ds) (auto simp: set_first_occurrences)

lemma first_occurrences_distinct: "distinct ds \<Longrightarrow> first_occurrences ds = ds"
proof (induction ds)
  case Nil
  show ?case by simp
next
  case (Cons d ds)
  then have "filter (\<lambda>x. x \<noteq> d) ds = ds"
    by (auto intro: filter_True)
  with Cons show ?case by simp
qed

lemma indexOf_from_notin: "d \<notin> set xs \<Longrightarrow> indexOf_from xs d i = - 1"
  by (induction xs arbitrary: i) auto

lemma indexOf_from_in:
  "d \<in> set xs \<Longrightarrow>
     \<exists>k<length xs. indexOf_from xs d i = i + int k \<and> xs ! k = d \<and> d \<notin> set (take k xs)"
proof (induction xs arbitrary: i)
  case Nil
  then show ?case by simp
next
  case (Cons x xs)
  show ?case
  proof (cases "x = d")
    case True
    then show ?thesis by (intro exI [of _ 0]) simp
  next
    case False
    with Cons.prems have "d \<in> set xs" by simp
    from Cons.IH [OF this, of "i + 1"] obtain k where
      k: "k < length xs" "indexOf_from xs d (i + 1) = i + 1 + int k" "xs ! k = d"
         "d \<notin> set (take k xs)"
      by blast
    with False show ?thesis by (intro exI [of _ "Suc k"]) auto
  qed
qed

lemma array_indexOf_member:
  assumes "d \<in> set arr"
  obtains k where "k < length arr" "array_indexOf arr (Some d) = int k" "arr ! k = d"
    "d \<notin> set (take k arr)"
  using indexOf_from_in [OF assms, of 0] by (auto simp: array_indexOf_def)

lemma array_indexOf_absent: "d \<notin> set arr \<Longrightarrow> array_indexOf arr (Some d) = - 1"
  by (simp add: array_indexOf_def indexOf_from_notin)

lemma array_indexOf_neg_iff: "array_indexOf arr (Some d) = - 1 \<longleftrightarrow> d \<notin> set arr"
proof
  assume h: "array_indexOf arr (Some d) = - 1"
  show "d \<notin> set arr"
  proof
    assume "d \<in> set arr"
    then obtain k where "array_indexOf arr (Some d) = int k"
      by (rule array_indexOf_member)
    with h show False by simp
  qed
qed (rule array_indexOf_absent)

lemma splice_remove_first:
  "k < length arr \<Longrightarrow> arr ! k = d \<Longrightarrow> d \<notin> set (take k arr) \<Longrightarrow> splice_remove arr k = remove1 d arr"
proof (induction arr arbitrary: k)
  case Nil
  then show ?case by simp
next
  case (Cons x xs)
  show ?case
  proof (cases k)
    case 0
    with Cons.prems show ?thesis by (simp add: splice_remove_def)
  next
    case (Suc j)
    with Cons.prems have "x \<noteq> d" "j < length xs" "xs ! j = d" "d \<notin> set (take j xs)"
      by auto
    with Cons.IH [of j] Suc show ?thesis by (simp add: splice_remove_def)
  qed
qed

subsection \<open>The walk of the pass\<close>

lemma walk_show_cur: "show_cur (fst (update_walk ds i hp acc) h) = show_cur (hp h)"
  by (induction ds arbitrary: i hp acc) (auto simp: Let_def)

lemma walk_frame: "h \<notin> set ds \<Longrightarrow> fst (update_walk ds i hp acc) h = hp h"
  by (induction ds arbitrary: i hp acc) (auto simp: Let_def)

lemma walk_show_last:
  "h \<in> set ds \<Longrightarrow> show_last (fst (update_walk ds i hp acc) h) = show_cur (hp h)"
proof (induction ds arbitrary: i hp acc)
  case Nil
  then show ?case by simp
next
  case (Cons d ds)
  show ?case
  proof (cases "h \<in> set ds")
    case True
    then show ?thesis by (simp add: Let_def Cons.IH)
  next
    case False
    with Cons.prems have "h = d" by simp
    with False show ?thesis by (auto simp: Let_def walk_frame)
  qed
qed

lemma walk_index_ex:
  "h \<in> set ds \<Longrightarrow>
     \<exists>k<length ds. ds ! k = h \<and> dataSourceIndex (fst (update_walk ds i hp acc) h) = Some (i + int k)"
proof (induction ds arbitrary: i hp acc)
  case Nil
  then show ?case by simp
next
  case (Cons d ds)
  show ?case
  proof (cases "h \<in> set ds")
    case True
    have "\<exists>k<length ds. ds ! k = h \<and>
            dataSourceIndex (fst (update_walk (d # ds) i hp acc) h) = Some (i + 1 + int k)"
      using Cons.IH [OF True, of "i + 1"] by (simp add: Let_def)
    then obtain k where "k < length ds" "ds ! k = h"
      "dataSourceIndex (fst (update_walk (d # ds) i hp acc) h) = Some (i + 1 + int k)"
      by blast
    then show ?thesis by (intro exI [of _ "Suc k"]) simp
  next
    case False
    with Cons.prems have "h = d" by simp
    with False show ?thesis by (intro exI [of _ 0]) (auto simp: Let_def walk_frame)
  qed
qed

lemma walk_index_distinct:
  "distinct ds \<Longrightarrow> k < length ds \<Longrightarrow>
     dataSourceIndex (fst (update_walk ds i hp acc) (ds ! k)) = Some (i + int k)"
proof -
  assume d: "distinct ds" and k: "k < length ds"
  then have "ds ! k \<in> set ds" by simp
  from walk_index_ex [OF this, of i hp acc] obtain j where
    j: "j < length ds" "ds ! j = ds ! k"
       "dataSourceIndex (fst (update_walk ds i hp acc) (ds ! k)) = Some (i + int j)"
    by blast
  with d k have "j = k" by (simp add: nth_eq_iff_index_eq)
  with j show ?thesis by simp
qed

lemma transitioned_upd_other:
  "x \<noteq> d \<Longrightarrow> transitioned (hp(d := v)) x = transitioned hp x"
  by (simp add: transitioned_def)

lemma filter_transitioned_upd:
  assumes "\<not> transitioned (hp(d := v)) d"
  shows "filter (transitioned (hp(d := v))) xs =
         filter (transitioned hp) (filter (\<lambda>x. x \<noteq> d) xs)"
proof -
  have "transitioned (hp(d := v)) x = (x \<noteq> d \<and> transitioned hp x)" for x
    using assms by (cases "x = d") (simp_all add: transitioned_upd_other)
  then show ?thesis by (simp add: conj_commute cong: filter_cong)
qed

lemma walk_acc:
  "olist (snd (update_walk ds i hp acc)) =
     olist acc @ filter (transitioned hp) (first_occurrences ds)"
proof (induction ds arbitrary: i hp acc)
  case Nil
  show ?case by simp
next
  case (Cons d ds)
  let ?hp1 = "hp(d := (hp d)\<lparr>dataSourceIndex := Some i\<rparr>)"
  let ?hp2 = "?hp1(d := (?hp1 d)\<lparr>show_last := show_cur (?hp1 d)\<rparr>)"
  have t1: "transitioned ?hp1 x = transitioned hp x" for x
    by (simp add: transitioned_def)
  have f1: "filter (transitioned ?hp1) xs = filter (transitioned hp) xs" for xs
    by (rule filter_cong) (simp_all add: t1)
  have n2: "\<not> transitioned ?hp2 d"
    by (simp add: transitioned_def)
  have f2: "filter (transitioned ?hp2) xs =
            filter (transitioned hp) (filter (\<lambda>x. x \<noteq> d) xs)" for xs
  proof -
    have "filter (transitioned ?hp2) xs =
          filter (transitioned ?hp1) (filter (\<lambda>x. x \<noteq> d) xs)"
      by (rule filter_transitioned_upd [OF n2])
    also have "\<dots> = filter (transitioned hp) (filter (\<lambda>x. x \<noteq> d) xs)"
      by (rule f1)
    finally show ?thesis .
  qed
  show ?case
  proof (cases "show_cur (hp d) \<noteq> show_last (hp d)")
    case True
    let ?acc1 = "if show_last (hp d) \<noteq> None then Some (olist acc @ [d]) else acc"
    from True have step: "update_walk (d # ds) i hp acc = update_walk ds (i + 1) ?hp2 ?acc1"
      by (simp add: Let_def olist_def)
    have "olist (snd (update_walk (d # ds) i hp acc)) =
          olist ?acc1 @ filter (transitioned ?hp2) (first_occurrences ds)"
      by (simp only: step Cons.IH)
    also have "\<dots> = olist ?acc1 @
          filter (transitioned hp) (filter (\<lambda>x. x \<noteq> d) (first_occurrences ds))"
      by (simp only: f2)
    also have "\<dots> = olist acc @ filter (transitioned hp) (first_occurrences (d # ds))"
      using True by (simp add: transitioned_def olist_def)
    finally show ?thesis .
  next
    case False
    then have nt: "\<not> transitioned ?hp1 d" by (simp add: transitioned_def)
    from False have step: "update_walk (d # ds) i hp acc = update_walk ds (i + 1) ?hp1 acc"
      by (simp add: Let_def)
    have "olist (snd (update_walk (d # ds) i hp acc)) =
          olist acc @ filter (transitioned ?hp1) (first_occurrences ds)"
      by (simp only: step Cons.IH)
    also have "\<dots> = olist acc @
          filter (transitioned hp) (filter (\<lambda>x. x \<noteq> d) (first_occurrences ds))"
      by (simp only: filter_transitioned_upd [OF nt])
    also have "\<dots> = olist acc @ filter (transitioned hp) (first_occurrences (d # ds))"
      using False by (simp add: transitioned_def)
    finally show ?thesis .
  qed
qed

subsection \<open>The pass as a whole\<close>

lemma update_notify_fields:
  "dataSources (update_notify l s) = dataSources s"
  "objs (update_notify l s) = objs s"
  "unusable (update_notify l s) = unusable s"
  by (induction l arbitrary: s) (simp_all add: raiseEvent_def)

lemma update_notify_trace:
  "trace (update_notify l s) =
     trace s @ map (\<lambda>d. DataSourceShownOrHidden d (dataSourceIndex (objs s d)) (show_cur (objs s d))) l"
  by (induction l arbitrary: s) (simp_all add: raiseEvent_def)

lemma update_dataSources: "dataSources (update s) = dataSources s"
  by (simp add: update_def Let_def update_notify_fields split: prod.splits option.splits)

lemma update_unusable: "unusable (update s) = unusable s"
  by (simp add: update_def Let_def update_notify_fields split: prod.splits option.splits)

lemma update_objs: "objs (update s) = fst (update_walk (dataSources s) 0 (objs s) None)"
  by (simp add: update_def Let_def update_notify_fields split: prod.splits option.splits)

lemma update_show_cur: "show_cur (objs (update s) h) = show_cur (objs s h)"
  by (simp add: update_objs walk_show_cur)

lemma update_trace:
  "trace (update s) =
     trace s @ map (\<lambda>d. DataSourceShownOrHidden d (dataSourceIndex (objs (update s) d))
                          (show_cur (objs s d)))
                (filter (transitioned (objs s)) (first_occurrences (dataSources s)))"
proof -
  obtain hp acc where w: "update_walk (dataSources s) 0 (objs s) None = (hp, acc)"
    by (cases "update_walk (dataSources s) 0 (objs s) None")
  have o: "olist acc = filter (transitioned (objs s)) (first_occurrences (dataSources s))"
    using walk_acc [of "dataSources s" 0 "objs s" None] w by (simp add: olist_def)
  have c: "show_cur (hp d) = show_cur (objs s d)" for d
    using walk_show_cur [of "dataSources s" 0 "objs s" None d] w by simp
  have u: "update s = (case acc of None \<Rightarrow> s\<lparr>objs := hp\<rparr>
                                 | Some l \<Rightarrow> update_notify l (s\<lparr>objs := hp\<rparr>))"
    using w by (simp add: update_def Let_def)
  have h: "objs (update s) = hp"
    by (simp add: u update_notify_fields split: option.splits)
  have t: "trace (update s) =
             trace s @ map (\<lambda>d. DataSourceShownOrHidden d (dataSourceIndex (hp d))
                                  (show_cur (hp d))) (olist acc)"
    by (simp add: u update_notify_trace olist_def split: option.splits)
  show ?thesis
    unfolding t h o c ..
qed

lemma update_index_ex:
  "h \<in> set (dataSources s) \<Longrightarrow>
     \<exists>k<length (dataSources s). dataSources s ! k = h \<and>
        dataSourceIndex (objs (update s) h) = Some (int k)"
  using walk_index_ex [of h "dataSources s" 0 "objs s" None] by (simp add: update_objs)

lemma update_index_distinct:
  "distinct (dataSources s) \<Longrightarrow> k < length (dataSources s) \<Longrightarrow>
     dataSourceIndex (objs (update s) (dataSources s ! k)) = Some (int k)"
  using walk_index_distinct [of "dataSources s" k 0 "objs s" None] by (simp add: update_objs)

lemma update_show_last:
  "h \<in> set (dataSources s) \<Longrightarrow> show_last (objs (update s) h) = show_cur (objs s h)"
  by (simp add: update_objs walk_show_last)

lemma update_frame: "h \<notin> set (dataSources s) \<Longrightarrow> objs (update s) h = objs s h"
  by (simp add: update_objs walk_frame)

subsection \<open>The concrete run\<close>

lemma coll_ABC_fields:
  "dataSources coll_ABC = [10, 20, 30]"
  "trace coll_ABC = [DataSourceAdded 10 0, DataSourceAdded 20 1, DataSourceAdded 30 2]"
  "objs coll_ABC 10 = \<lparr>show_cur = Some True, show_last = Some True, dataSourceIndex = Some 0\<rparr>"
  "objs coll_ABC 20 = \<lparr>show_cur = Some False, show_last = Some False, dataSourceIndex = Some 1\<rparr>"
  "objs coll_ABC 30 = \<lparr>show_cur = Some True, show_last = Some True, dataSourceIndex = Some 2\<rparr>"
  "unusable coll_ABC = False"
  by (simp_all add: coll_ABC_def add_def DataSourceCollection_def store0_def update_def
        raiseEvent_def Let_def)

subsection \<open>The operations\<close>

lemma update_trace_pass: "trace (update s) = trace s @ pass_events s"
  unfolding pass_events_def by (rule update_trace)

lemma removeAll_loop_eq:
  "removeAll_loop ds i b s =
     s\<lparr>trace := trace s @
          concat (map (\<lambda>k. DataSourceRemoved (ds ! k) (i + int k) #
                             (if b then [DestroyCalled (ds ! k)] else []))
                    [0..<length ds])\<rparr>"
proof (induction ds arbitrary: i s)
  case Nil
  show ?case by simp
next
  case (Cons d ds)
  have shift: "[0..<Suc (length ds)] = 0 # map Suc [0..<length ds]"
    by (simp only: map_Suc_upt upt_conv_Cons [of 0 "Suc (length ds)"] zero_less_Suc)
  show ?case
    by (simp add: Cons.IH shift raiseEvent_def callDestroy_def Let_def comp_def add.assoc
             del: upt_Suc)
qed

lemma remove_member:
  assumes "d \<in> set (dataSources s)"
  shows "remove s (Some d) destroy0 =
           (Inr (Bool True),
            (update (s\<lparr>dataSources := remove1 d (dataSources s)\<rparr>))
              \<lparr>trace := trace s @ pass_events (s\<lparr>dataSources := remove1 d (dataSources s)\<rparr>) @
                 DataSourceRemoved d (array_indexOf (dataSources s) (Some d)) #
                 (if destroy0 \<noteq> Some False then [DestroyCalled d] else [])\<rparr>)"
proof -
  from assms obtain k where k: "k < length (dataSources s)"
      "array_indexOf (dataSources s) (Some d) = int k" "dataSources s ! k = d"
      "d \<notin> set (take k (dataSources s))"
    by (rule array_indexOf_member)
  then have sp: "splice_remove (dataSources s) k = remove1 d (dataSources s)"
    by (simp add: splice_remove_first)
  show ?thesis
    by (cases destroy0)
       (simp_all add: remove_def k(2) sp Let_def defaultValue_def raiseEvent_def callDestroy_def
          update_trace_pass)
qed

lemma add_valid:
  assumes "valid_index s index"
  shows "add s (Some d) index =
           (Inr Undefined,
            (update (inserted s d index))
              \<lparr>trace := trace s @ pass_events (inserted s d index) @
                 [DataSourceAdded d (insertion_index s index)]\<rparr>)"
proof (cases index)
  case None
  then show ?thesis
    by (simp add: add_def inserted_def insertion_index_def Let_def raiseEvent_def
          update_trace_pass)
next
  case (Some i)
  with assms have "0 \<le> i" "i \<le> int (length (dataSources s))"
    by (simp_all add: valid_index_def)
  with Some show ?thesis
    by (simp add: add_def inserted_def insertion_index_def Let_def raiseEvent_def
          update_trace_pass splice_insert_def)
qed

lemma add_invalid:
  assumes "\<not> valid_index s index"
  shows "\<exists>e. add s x index = (Inl e, s)"
  using assms by (auto simp: add_def valid_index_def split: option.splits)

lemma add_missing: "add s None index = (Inl (DeveloperError ''dataSource is required.''), s)"
  by (simp add: add_def)

lemma remove_absent:
  "d \<notin> set (dataSources s) \<Longrightarrow> remove s (Some d) destroy0 = (Inr (Bool False), s)"
  by (simp add: remove_def array_indexOf_absent Let_def)

lemma remove_undefined: "remove s None destroy0 = (Inr (Bool False), s)"
  by (simp add: remove_def Let_def)

subsection \<open>Reordering\<close>

lemma getDataSourceIndex_undefined:
  "getDataSourceIndex arr None = Inl (DeveloperError ''dataSource is required.'')"
  by (simp add: getDataSourceIndex_def)

lemma getDataSourceIndex_absent:
  "d \<notin> set arr \<Longrightarrow>
     getDataSourceIndex arr (Some d) = Inl (DeveloperError ''dataSource is not in this collection.'')"
  by (simp add: getDataSourceIndex_def array_indexOf_absent)

lemma getDataSourceIndex_member:
  "d \<in> set arr \<Longrightarrow> getDataSourceIndex arr (Some d) = Inr (array_indexOf arr (Some d))"
  by (simp add: getDataSourceIndex_def array_indexOf_neg_iff Let_def)

lemma swapDataSources_up:
  assumes "k < length (dataSources s)"
  shows "swapDataSources s (int k) (int k + 1) =
           (if Suc k = length (dataSources s) then s
            else after_pass (swapped s k (Suc k))
                   (DataSourceMoved (dataSources s ! k) (int k + 1) (int k)))"
proof -
  have i: "clamp (int k) 0 (int (length (dataSources s)) - 1) = int k"
    using assms by (simp add: clamp_def)
  have j: "clamp (int k + 1) 0 (int (length (dataSources s)) - 1) =
             (if Suc k = length (dataSources s) then int k else int k + 1)"
    using assms by (auto simp: clamp_def)
  have n: "nat (int k + 1) = Suc k" by simp
  show ?thesis
    by (simp add: swapDataSources_def i j n Let_def after_pass_def swapped_def raiseEvent_def
          update_trace_pass)
qed

lemma swapDataSources_down:
  assumes "k < length (dataSources s)"
  shows "swapDataSources s (int k) (int k - 1) =
           (if k = 0 then s
            else after_pass (swapped s k (k - 1))
                   (DataSourceMoved (dataSources s ! k) (int k - 1) (int k)))"
proof -
  have i: "clamp (int k) 0 (int (length (dataSources s)) - 1) = int k"
    using assms by (simp add: clamp_def)
  have j: "clamp (int k - 1) 0 (int (length (dataSources s)) - 1) =
             (if k = 0 then int k else int k - 1)"
    using assms by (auto simp: clamp_def)
  have n: "nat (int k - 1) = k - 1" by simp
  show ?thesis
    by (simp add: swapDataSources_def i j n Let_def after_pass_def swapped_def raiseEvent_def
          update_trace_pass)
qed

lemma raise_member:
  assumes "k < length (dataSources s)" "array_indexOf (dataSources s) (Some d) = int k"
    "dataSources s ! k = d"
  shows "raise s (Some d) =
           (Inr Undefined,
            if Suc k = length (dataSources s) then s
            else after_pass (swapped s k (Suc k)) (DataSourceMoved d (int k + 1) (int k)))"
proof -
  from assms have "d \<in> set (dataSources s)" by auto
  then show ?thesis
    using assms
    by (simp add: raise_def getDataSourceIndex_member swapDataSources_up del: of_nat_Suc)
qed

lemma lower_member:
  assumes "k < length (dataSources s)" "array_indexOf (dataSources s) (Some d) = int k"
    "dataSources s ! k = d"
  shows "lower s (Some d) =
           (Inr Undefined,
            if k = 0 then s
            else after_pass (swapped s k (k - 1)) (DataSourceMoved d (int k - 1) (int k)))"
proof -
  from assms have "d \<in> set (dataSources s)" by auto
  then show ?thesis
    using assms
    by (simp add: lower_def getDataSourceIndex_member swapDataSources_down del: of_nat_Suc)
qed

lemma raiseToTop_member:
  assumes "k < length (dataSources s)" "array_indexOf (dataSources s) (Some d) = int k"
    "dataSources s ! k = d" "d \<notin> set (take k (dataSources s))"
  shows "raiseToTop s (Some d) =
           (Inr Undefined,
            if Suc k = length (dataSources s) then s
            else after_pass (moved_last s d)
                   (DataSourceMoved d (int (length (dataSources s)) - 1) (int k)))"
proof -
  from assms have m: "d \<in> set (dataSources s)" by auto
  have sp: "splice_remove (dataSources s) k = remove1 d (dataSources s)"
    using assms by (simp add: splice_remove_first)
  have len: "length (remove1 d (dataSources s)) = length (dataSources s) - 1"
    using m by (simp add: length_remove1)
  have eq: "(int k = int (length (dataSources s)) - 1) = (Suc k = length (dataSources s))"
    using assms(1) by auto
  show ?thesis
    using assms(1)
    by (simp add: raiseToTop_def getDataSourceIndex_member [OF m] assms(2) sp eq Let_def
          after_pass_def moved_last_def raiseEvent_def update_trace_pass update_dataSources len
          del: of_nat_Suc)
qed

lemma lowerToBottom_member:
  assumes "k < length (dataSources s)" "array_indexOf (dataSources s) (Some d) = int k"
    "dataSources s ! k = d" "d \<notin> set (take k (dataSources s))"
  shows "lowerToBottom s (Some d) =
           (Inr Undefined,
            if k = 0 then s
            else after_pass (moved_first s d) (DataSourceMoved d 0 (int k)))"
proof -
  from assms have m: "d \<in> set (dataSources s)" by auto
  have sp: "splice_remove (dataSources s) k = remove1 d (dataSources s)"
    using assms by (simp add: splice_remove_first)
  show ?thesis
    by (simp add: lowerToBottom_def getDataSourceIndex_member [OF m] assms(2) sp Let_def
          after_pass_def moved_first_def raiseEvent_def update_trace_pass splice_insert_def)
qed

lemma reorder_absent:
  assumes "d \<notin> set (dataSources s)"
  shows "raise s (Some d) = (Inl (DeveloperError ''dataSource is not in this collection.''), s)"
    "lower s (Some d) = (Inl (DeveloperError ''dataSource is not in this collection.''), s)"
    "raiseToTop s (Some d) = (Inl (DeveloperError ''dataSource is not in this collection.''), s)"
    "lowerToBottom s (Some d) = (Inl (DeveloperError ''dataSource is not in this collection.''), s)"
  using assms
  by (simp_all add: raise_def lower_def raiseToTop_def lowerToBottom_def
        getDataSourceIndex_absent)

lemma reorder_undefined:
  "raise s None = (Inl (DeveloperError ''dataSource is required.''), s)"
  "lower s None = (Inl (DeveloperError ''dataSource is required.''), s)"
  "raiseToTop s None = (Inl (DeveloperError ''dataSource is required.''), s)"
  "lowerToBottom s None = (Inl (DeveloperError ''dataSource is required.''), s)"
  by (simp_all add: raise_def lower_def raiseToTop_def lowerToBottom_def
        getDataSourceIndex_undefined)

lemma first_index_member:
  assumes "d \<in> set (dataSources s)"
  shows "first_index s d < length (dataSources s)"
    "array_indexOf (dataSources s) (Some d) = int (first_index s d)"
    "dataSources s ! first_index s d = d"
    "d \<notin> set (take (first_index s d) (dataSources s))"
proof -
  from assms obtain k where k: "k < length (dataSources s)"
      "array_indexOf (dataSources s) (Some d) = int k" "dataSources s ! k = d"
      "d \<notin> set (take k (dataSources s))"
    by (rule array_indexOf_member)
  then have "first_index s d = k" by (simp add: first_index_def)
  with k show "first_index s d < length (dataSources s)"
    "array_indexOf (dataSources s) (Some d) = int (first_index s d)"
    "dataSources s ! first_index s d = d"
    "d \<notin> set (take (first_index s d) (dataSources s))"
    by simp_all
qed

lemma array_indexOf_last:
  assumes "distinct arr" "arr \<noteq> []"
  shows "array_indexOf arr (Some (last arr)) = int (length arr) - 1"
proof -
  from assms(2) have "last arr \<in> set arr" by simp
  then obtain k where k: "k < length arr" "array_indexOf arr (Some (last arr)) = int k"
      "arr ! k = last arr"
    by (rule array_indexOf_member)
  from assms(2) have l: "last arr = arr ! (length arr - 1)" "length arr - 1 < length arr"
    by (simp_all add: last_conv_nth)
  with k assms(1) have "k = length arr - 1"
    by (simp add: nth_eq_iff_index_eq)
  with k l show ?thesis by simp
qed

lemma array_indexOf_hd: "arr \<noteq> [] \<Longrightarrow> array_indexOf arr (Some (hd arr)) = 0"
  by (cases arr) (simp_all add: array_indexOf_def)

lemma raise_top:
  assumes "d \<in> set (dataSources s)"
    "array_indexOf (dataSources s) (Some d) = int (length (dataSources s)) - 1"
  shows "raise s (Some d) = (Inr Undefined, s)"
proof -
  note f = first_index_member [OF assms(1)]
  from f(1,2) assms(2) have "Suc (first_index s d) = length (dataSources s)" by simp
  with raise_member [OF f(1) f(2) f(3)] show ?thesis by simp
qed


lemma index_zero_member:
  assumes "array_indexOf (dataSources s) (Some d) = 0"
  shows "d \<in> set (dataSources s)"
  using assms array_indexOf_absent [of d "dataSources s"] by fastforce

lemma lower_bottom:
  assumes "array_indexOf (dataSources s) (Some d) = 0"
  shows "lower s (Some d) = (Inr Undefined, s)"
proof -
  note f = first_index_member [OF index_zero_member [OF assms]]
  from f(2) assms have "first_index s d = 0" by simp
  with lower_member [OF f(1) f(2) f(3)] show ?thesis by simp
qed


lemma raise_inner:
  assumes "d \<in> set (dataSources s)"
    "array_indexOf (dataSources s) (Some d) \<noteq> int (length (dataSources s)) - 1"
  shows "raise s (Some d) =
           (Inr Undefined,
            after_pass (swapped s (first_index s d) (Suc (first_index s d)))
              (DataSourceMoved d (int (first_index s d) + 1) (int (first_index s d))))"
    and "Suc (first_index s d) < length (dataSources s)"
proof -
  note f = first_index_member [OF assms(1)]
  from f(1,2) assms(2) show b: "Suc (first_index s d) < length (dataSources s)" by auto
  with raise_member [OF f(1) f(2) f(3)] show "raise s (Some d) =
           (Inr Undefined,
            after_pass (swapped s (first_index s d) (Suc (first_index s d)))
              (DataSourceMoved d (int (first_index s d) + 1) (int (first_index s d))))"
    by simp
qed

lemma lower_inner:
  assumes "d \<in> set (dataSources s)" "array_indexOf (dataSources s) (Some d) \<noteq> 0"
  shows "lower s (Some d) =
           (Inr Undefined,
            after_pass (swapped s (first_index s d) (first_index s d - 1))
              (DataSourceMoved d (int (first_index s d) - 1) (int (first_index s d))))"
    and "0 < first_index s d"
proof -
  note f = first_index_member [OF assms(1)]
  from f(2) assms(2) show b: "0 < first_index s d" by auto
  with lower_member [OF f(1) f(2) f(3)] show "lower s (Some d) =
           (Inr Undefined,
            after_pass (swapped s (first_index s d) (first_index s d - 1))
              (DataSourceMoved d (int (first_index s d) - 1) (int (first_index s d))))"
    by simp
qed

lemma after_pass_fields:
  "dataSources (after_pass s1 e) = dataSources s1"
  "objs (after_pass s1 e) = objs (update s1)"
  "trace (after_pass s1 e) = trace s1 @ pass_events s1 @ [e]"
  "unusable (after_pass s1 e) = unusable s1"
  by (simp_all add: after_pass_def update_dataSources update_unusable)


subsection \<open>Duplicates\<close>

lemma distinct_inserted:
  assumes "k \<le> length xs"
  shows "distinct (take k xs @ d # drop k xs) \<longleftrightarrow> distinct xs \<and> d \<notin> set xs"
proof -
  have "distinct (take k xs @ drop k xs) = distinct xs" by simp
  moreover have "set (take k xs) \<union> set (drop k xs) = set xs"
    by (metis append_take_drop_id set_append)
  ultimately show ?thesis
    by (auto simp del: append_take_drop_id)
qed

lemma distinct_moved:
  assumes "distinct xs"
  shows "distinct (remove1 d xs @ [d])" "distinct (d # remove1 d xs)"
  using assms by simp_all

lemma distinct_raise: "distinct (dataSources s) \<Longrightarrow> distinct (dataSources (snd (raise s x)))"
proof (cases x)
  case None
  assume "distinct (dataSources s)"
  with None show ?thesis by (simp add: reorder_undefined)
next
  case (Some d)
  assume ds: "distinct (dataSources s)"
  show ?thesis
  proof (cases "d \<in> set (dataSources s)")
    case False
    with Some ds show ?thesis by (simp add: reorder_absent)
  next
    case True
    note f = first_index_member [OF True]
    from raise_member [OF f(1) f(2) f(3)] Some ds f(1) show ?thesis
      by (auto simp: after_pass_fields swapped_def distinct_swap)
  qed
qed

lemma distinct_lower: "distinct (dataSources s) \<Longrightarrow> distinct (dataSources (snd (lower s x)))"
proof (cases x)
  case None
  assume "distinct (dataSources s)"
  with None show ?thesis by (simp add: reorder_undefined)
next
  case (Some d)
  assume ds: "distinct (dataSources s)"
  show ?thesis
  proof (cases "d \<in> set (dataSources s)")
    case False
    with Some ds show ?thesis by (simp add: reorder_absent)
  next
    case True
    note f = first_index_member [OF True]
    from lower_member [OF f(1) f(2) f(3)] Some ds f(1) show ?thesis
      by (auto simp: after_pass_fields swapped_def distinct_swap)
  qed
qed

lemma distinct_raiseToTop:
  "distinct (dataSources s) \<Longrightarrow> distinct (dataSources (snd (raiseToTop s x)))"
proof (cases x)
  case None
  assume "distinct (dataSources s)"
  with None show ?thesis by (simp add: reorder_undefined)
next
  case (Some d)
  assume ds: "distinct (dataSources s)"
  show ?thesis
  proof (cases "d \<in> set (dataSources s)")
    case False
    with Some ds show ?thesis by (simp add: reorder_absent)
  next
    case True
    note f = first_index_member [OF True]
    from raiseToTop_member [OF f] Some ds show ?thesis
      by (auto simp: after_pass_fields moved_last_def)
  qed
qed

lemma distinct_lowerToBottom:
  "distinct (dataSources s) \<Longrightarrow> distinct (dataSources (snd (lowerToBottom s x)))"
proof (cases x)
  case None
  assume "distinct (dataSources s)"
  with None show ?thesis by (simp add: reorder_undefined)
next
  case (Some d)
  assume ds: "distinct (dataSources s)"
  show ?thesis
  proof (cases "d \<in> set (dataSources s)")
    case False
    with Some ds show ?thesis by (simp add: reorder_absent)
  next
    case True
    note f = first_index_member [OF True]
    from lowerToBottom_member [OF f] Some ds show ?thesis
      by (auto simp: after_pass_fields moved_first_def)
  qed
qed

lemma distinct_remove: "distinct (dataSources s) \<Longrightarrow> distinct (dataSources (snd (remove s x b)))"
proof (cases x)
  case None
  assume "distinct (dataSources s)"
  with None show ?thesis by (simp add: remove_undefined)
next
  case (Some d)
  assume ds: "distinct (dataSources s)"
  show ?thesis
  proof (cases "d \<in> set (dataSources s)")
    case False
    with Some ds show ?thesis by (simp add: remove_absent)
  next
    case True
    from remove_member [OF True, of b] Some ds show ?thesis
      by (simp add: update_dataSources)
  qed
qed

lemma removeAll_dataSources: "dataSources (snd (removeAll_ds s b)) = []"
  by (simp add: removeAll_ds_def Let_def)

lemma destroy_dataSources: "dataSources (snd (destroy s)) = []"
  by (simp add: destroy_def destroyObject_def removeAll_ds_def Let_def)

lemma queries_unchanged:
  "snd (contains s x) = s" "snd (indexOf s x) = s" "snd (get s i) = s" "snd (getLength s) = s"
  "snd (isDestroyed s) = s"
  by (simp_all add: contains_def indexOf_def get_def getLength_def isDestroyed_def
        split: option.splits)

subsection \<open>Stored positions\<close>

lemma position_invariant_iff:
  "position_invariant s \<longleftrightarrow>
     (\<forall>k<length (dataSources s). dataSourceIndex (objs s (dataSources s ! k)) = Some (int k))"
  by (auto simp: position_invariant_def list_all_iff)

lemma pass_positions:
  assumes "dataSources s' = dataSources s1" "objs s' = objs (update s1)"
    "distinct (dataSources s')"
  shows "position_invariant s'"
  using assms update_index_distinct [of s1]
  by (simp add: position_invariant_iff)

lemma empty_positions: "dataSources s' = [] \<Longrightarrow> position_invariant s'"
  by (simp add: position_invariant_def)

lemma positions_add:
  assumes "distinct (dataSources s) \<longrightarrow> position_invariant s"
    "distinct (dataSources (snd (add s x index)))"
  shows "position_invariant (snd (add s x index))"
proof (cases "\<exists>d. x = Some d \<and> valid_index s index")
  case True
  then obtain d where x: "x = Some d" and v: "valid_index s index" by blast
  let ?s' = "snd (add s (Some d) index)"
  have a: "dataSources ?s' = dataSources (inserted s d index)"
    and b: "objs ?s' = objs (update (inserted s d index))"
    by (simp_all add: add_valid [OF v] update_dataSources)
  from assms(2) x have c: "distinct (dataSources ?s')" by simp
  from pass_positions [OF a b c] x show ?thesis by simp
next
  case False
  have "snd (add s x index) = s"
  proof (cases x)
    case None
    then show ?thesis by (simp add: add_missing)
  next
    case (Some d)
    with False have "\<not> valid_index s index" by simp
    from add_invalid [OF this, of x] show ?thesis by auto
  qed
  with assms show ?thesis by simp
qed

lemma positions_remove:
  assumes "distinct (dataSources s) \<longrightarrow> position_invariant s"
    "distinct (dataSources (snd (remove s x b)))"
  shows "position_invariant (snd (remove s x b))"
proof (cases "\<exists>d. x = Some d \<and> d \<in> set (dataSources s)")
  case True
  then obtain d where x: "x = Some d" and m: "d \<in> set (dataSources s)" by blast
  let ?s1 = "s\<lparr>dataSources := remove1 d (dataSources s)\<rparr>"
  let ?s' = "snd (remove s (Some d) b)"
  have a: "dataSources ?s' = dataSources ?s1" and b: "objs ?s' = objs (update ?s1)"
    by (simp_all add: remove_member [OF m] update_dataSources)
  from assms(2) x have c: "distinct (dataSources ?s')" by simp
  from pass_positions [OF a b c] x show ?thesis by simp
next
  case False
  have "snd (remove s x b) = s"
  proof (cases x)
    case None
    then show ?thesis by (simp add: remove_undefined)
  next
    case (Some d)
    with False show ?thesis by (simp add: remove_absent)
  qed
  with assms show ?thesis by simp
qed

lemma reorder_cases:
  assumes "op = raise \<or> op = lower \<or> op = raiseToTop \<or> op = lowerToBottom"
  shows "snd (op s x) = s \<or>
         (\<exists>s1 e. snd (op s x) = after_pass s1 e)"
proof (cases x)
  case None
  with assms show ?thesis by (auto simp: reorder_undefined)
next
  case (Some d)
  show ?thesis
  proof (cases "d \<in> set (dataSources s)")
    case False
    with Some assms show ?thesis by (auto simp: reorder_absent)
  next
    case True
    note f = first_index_member [OF True]
    from assms consider "op = raise" | "op = lower" | "op = raiseToTop" | "op = lowerToBottom"
      by blast
    then show ?thesis
    proof cases
      case 1
      with raise_member [OF f(1) f(2) f(3)] Some show ?thesis by auto
    next
      case 2
      with lower_member [OF f(1) f(2) f(3)] Some show ?thesis by auto
    next
      case 3
      with raiseToTop_member [OF f] Some show ?thesis by auto
    next
      case 4
      with lowerToBottom_member [OF f] Some show ?thesis by auto
    qed
  qed
qed

lemma positions_reorder:
  assumes "op = raise \<or> op = lower \<or> op = raiseToTop \<or> op = lowerToBottom"
    "distinct (dataSources s) \<longrightarrow> position_invariant s"
    "distinct (dataSources (snd (op s x)))"
  shows "position_invariant (snd (op s x))"
proof -
  from reorder_cases [OF assms(1), of s x] show ?thesis
  proof
    assume "snd (op s x) = s"
    with assms(2,3) show ?thesis by simp
  next
    assume "\<exists>s1 e. snd (op s x) = after_pass s1 e"
    then obtain s1 e where e: "snd (op s x) = after_pass s1 e" by blast
    then have "dataSources (snd (op s x)) = dataSources s1"
      "objs (snd (op s x)) = objs (update s1)"
      by (simp_all add: after_pass_fields)
    with assms(3) show ?thesis by (rule pass_positions [rotated 2])
  qed
qed

lemma set_show_positions: "position_invariant (set_show s h b) = position_invariant s"
  by (auto simp: position_invariant_def set_show_def list_all_iff)

subsection \<open>What an operation reports\<close>

lemma added_twice_fields:
  "dataSources added_twice = [10, 10]"
  "trace added_twice = [DataSourceAdded 10 0, DataSourceAdded 10 1]"
  "objs added_twice 10 = \<lparr>show_cur = Some True, show_last = Some True, dataSourceIndex = Some 1\<rparr>"
  "unusable added_twice = False"
  by (simp_all add: added_twice_def add_def DataSourceCollection_def store0_def update_def
        raiseEvent_def Let_def)

lemma walk_index_last:
  "h \<in> set ds \<Longrightarrow>
     \<exists>k<length ds. ds ! k = h \<and> h \<notin> set (drop (Suc k) ds) \<and>
        dataSourceIndex (fst (update_walk ds i hp acc) h) = Some (i + int k)"
proof (induction ds arbitrary: i hp acc)
  case Nil
  then show ?case by simp
next
  case (Cons d ds)
  show ?case
  proof (cases "h \<in> set ds")
    case True
    have "\<exists>k<length ds. ds ! k = h \<and> h \<notin> set (drop (Suc k) ds) \<and>
            dataSourceIndex (fst (update_walk (d # ds) i hp acc) h) = Some (i + 1 + int k)"
      using Cons.IH [OF True, of "i + 1"] by (simp add: Let_def)
    then obtain k where "k < length ds" "ds ! k = h" "h \<notin> set (drop (Suc k) ds)"
      "dataSourceIndex (fst (update_walk (d # ds) i hp acc) h) = Some (i + 1 + int k)"
      by blast
    then show ?thesis by (intro exI [of _ "Suc k"]) simp
  next
    case False
    with Cons.prems have "h = d" by simp
    with False show ?thesis by (intro exI [of _ 0]) (auto simp: Let_def walk_frame)
  qed
qed

lemma update_index_last:
  "h \<in> set (dataSources s) \<Longrightarrow>
     \<exists>k<length (dataSources s). dataSources s ! k = h \<and>
        h \<notin> set (drop (Suc k) (dataSources s)) \<and>
        dataSourceIndex (objs (update s) h) = Some (int k)"
  using walk_index_last [of h "dataSources s" 0 "objs s" None] by (simp add: update_objs)




lemma set_take_drop: "set (take k xs) \<union> set (drop k xs) = set xs"
  by (metis append_take_drop_id set_append)

lemma set_inserted: "set (dataSources (inserted s e index)) = insert e (set (dataSources s))"
  using set_take_drop [of "nat (insertion_index s index)" "dataSources s"]
  by (auto simp: inserted_def)








section \<open>The claims\<close>

text \<open>
  C1, as stated: a successful \<^verbatim>\<open>add\<close> returns the index of insertion. The function has no
  return statement: appending the data source 10 to a fresh collection puts it at index 0 and
  returns \<^verbatim>\<open>undefined\<close>, not 0.
\<close>

theorem add_returns_index_counterexample:
  "fst (add (DataSourceCollection store0) (Some 10) None) \<noteq> Inr (Num 0) \<and>
   dataSources (snd (add (DataSourceCollection store0) (Some 10) None)) ! 0 = 10"
  by (simp add: add_def DataSourceCollection_def store0_def update_def raiseEvent_def Let_def)

text \<open>
  C1, amended. For every data source and every valid index argument (also an omitted one), a
  successful \<^verbatim>\<open>add\<close> returns \<^verbatim>\<open>undefined\<close>; the data source is then in the array at the
  index of insertion (the previous length when appending), and that index is what the added
  event, raised last and after the pass, carries.
\<close>

theorem add_reports_index:
  assumes "valid_index s index"
  shows "fst (add s (Some d) index) = Inr Undefined
       \<and> dataSources (snd (add s (Some d) index)) =
           take (nat (insertion_index s index)) (dataSources s) @ d #
           drop (nat (insertion_index s index)) (dataSources s)
       \<and> dataSources (snd (add s (Some d) index)) ! nat (insertion_index s index) = d
       \<and> trace (snd (add s (Some d) index)) =
           trace s @ pass_events (inserted s d index) @
           [DataSourceAdded d (insertion_index s index)]
       \<and> (index = None \<longrightarrow> insertion_index s index = int (length (dataSources s)))
       \<and> (\<forall>i. index = Some i \<longrightarrow> insertion_index s index = i)"
proof -
  have le: "nat (insertion_index s index) \<le> length (dataSources s)"
    using assms by (cases index) (auto simp: insertion_index_def valid_index_def nat_le_iff)
  then have "(take (nat (insertion_index s index)) (dataSources s) @ d #
           drop (nat (insertion_index s index)) (dataSources s)) ! nat (insertion_index s index) = d"
    by (simp add: nth_append)
  then show ?thesis
    by (simp add: add_valid [OF assms] update_dataSources inserted_def insertion_index_def)
qed

theorem add_reports_index_witness:
  "valid_index coll_ABC (Some 1) \<and>
   fst (add coll_ABC (Some 40) (Some 1)) = Inr Undefined \<and>
   dataSources (snd (add coll_ABC (Some 40) (Some 1))) = [10, 40, 20, 30] \<and>
   trace (snd (add coll_ABC (Some 40) (Some 1))) = trace coll_ABC @ [DataSourceAdded 40 1]"
proof -
  have v: "valid_index coll_ABC (Some 1)"
    by (simp add: valid_index_def coll_ABC_fields)
  have pe: "show_last (objs coll_ABC 40) = None \<Longrightarrow>
            pass_events (inserted coll_ABC 40 (Some 1)) = []"
    by (simp add: pass_events_def inserted_def insertion_index_def coll_ABC_fields
          transitioned_def)
  have "show_last (objs coll_ABC 40) = None"
    by (simp add: coll_ABC_def add_def DataSourceCollection_def store0_def update_def
          raiseEvent_def Let_def)
  with pe have pe0: "pass_events (inserted coll_ABC 40 (Some 1)) = []" .
  from add_reports_index [OF v, of 40] v show ?thesis
    by (simp add: pe0 insertion_index_def coll_ABC_fields)
qed

text \<open>
  C2, as stated: every operation keeps the array free of duplicates, \<^verbatim>\<open>add\<close> of a member
  included. \<^verbatim>\<open>add\<close> never looks the data source up: adding A to the collection that holds
  just A succeeds and leaves the array [A, A].
\<close>

theorem add_twice_counterexample:
  "distinct (dataSources (snd (add (DataSourceCollection store0) (Some 10) None)))
   \<and> 10 \<in> set (dataSources (snd (add (DataSourceCollection store0) (Some 10) None)))
   \<and> fst (add (snd (add (DataSourceCollection store0) (Some 10) None)) (Some 10) None) =
       Inr Undefined
   \<and> \<not> distinct (dataSources
         (snd (add (snd (add (DataSourceCollection store0) (Some 10) None)) (Some 10) None)))"
  by (simp add: add_def DataSourceCollection_def update_dataSources raiseEvent_def Let_def)

text \<open>
  C2, amended. On an array without duplicates, every operation other than \<^verbatim>\<open>add\<close> leaves
  an array without duplicates; a successful \<^verbatim>\<open>add\<close> does so exactly when the data source is
  not yet a member (a member added again is held twice), and a failing \<^verbatim>\<open>add\<close> changes
  nothing.
\<close>

theorem duplicates_only_by_add:
  assumes "distinct (dataSources s)"
  shows "(\<forall>c. (\<forall>x i. c \<noteq> Add x i) \<longrightarrow> distinct (dataSources (snd (prototype_call s c))))
       \<and> (valid_index s index \<longrightarrow>
            fst (add s (Some d) index) = Inr Undefined \<and>
            (distinct (dataSources (snd (add s (Some d) index))) \<longleftrightarrow> d \<notin> set (dataSources s)))
       \<and> (\<forall>e. fst (add s x index) = Inl e \<longrightarrow> snd (add s x index) = s)"
proof (intro conjI impI allI)
  fix c assume "\<forall>x i. c \<noteq> Add x i"
  with assms show "distinct (dataSources (snd (prototype_call s c)))"
    by (cases c)
       (simp_all add: distinct_remove removeAll_dataSources queries_unchanged distinct_raise
          distinct_lower distinct_raiseToTop distinct_lowerToBottom destroy_dataSources)
next
  assume v: "valid_index s index"
  show "fst (add s (Some d) index) = Inr Undefined"
    by (simp add: add_valid [OF v])
  have le: "nat (insertion_index s index) \<le> length (dataSources s)"
    using v by (cases index) (auto simp: insertion_index_def valid_index_def nat_le_iff)
  have ds: "dataSources (snd (add s (Some d) index)) =
              take (nat (insertion_index s index)) (dataSources s) @ d #
              drop (nat (insertion_index s index)) (dataSources s)"
    by (simp add: add_valid [OF v] update_dataSources inserted_def)
  show "distinct (dataSources (snd (add s (Some d) index))) \<longleftrightarrow> d \<notin> set (dataSources s)"
    unfolding ds using distinct_inserted [OF le, of d] assms by blast
next
  fix e assume f: "fst (add s x index) = Inl e"
  show "snd (add s x index) = s"
  proof (cases x)
    case None
    then show ?thesis by (simp add: add_missing)
  next
    case (Some h)
    show ?thesis
    proof (cases "valid_index s index")
      case True
      from add_valid [OF True, of h] f Some show ?thesis by simp
    next
      case False
      from add_invalid [OF False, of x] show ?thesis by auto
    qed
  qed
qed

theorem duplicates_only_by_add_witness:
  "distinct (dataSources coll_ABC)
   \<and> distinct (dataSources (snd (prototype_call coll_ABC (RaiseToTop (Some 10)))))
   \<and> distinct (dataSources (snd (add coll_ABC (Some 40) None)))
   \<and> \<not> distinct (dataSources (snd (add coll_ABC (Some 10) None)))"
proof -
  have d: "distinct (dataSources coll_ABC)"
    by (simp add: coll_ABC_fields)
  have v: "valid_index coll_ABC None"
    by (simp add: valid_index_def)
  have m: "40 \<notin> set (dataSources coll_ABC)" "10 \<in> set (dataSources coll_ABC)"
    by (simp_all add: coll_ABC_fields)
  from duplicates_only_by_add [OF d, of None 40] duplicates_only_by_add [OF d, of None 10] d v m
  show ?thesis by blast
qed

text \<open>
  C3. For a member \<open>d\<close>, \<^verbatim>\<open>remove(d, true)\<close> (or with \<^verbatim>\<open>destroy\<close> omitted) returns true, and its
  effects come in this order: \<open>d\<close> is taken out of the array at its index (the first
  occurrence); the pass runs on the array without \<open>d\<close>, raising its shown-or-hidden events;
  the removed event with \<open>d\<close> and the index \<open>d\<close> had is raised; and last of all
  \<^verbatim>\<open>d.destroy()\<close> is called.
\<close>

theorem remove_then_destroy_order:
  assumes "d \<in> set (dataSources s)" and "destroy0 = None \<or> destroy0 = Some True"
  shows "remove s (Some d) destroy0 =
           (Inr (Bool True),
            (update (s\<lparr>dataSources := remove1 d (dataSources s)\<rparr>))
              \<lparr>trace := trace s @ pass_events (s\<lparr>dataSources := remove1 d (dataSources s)\<rparr>) @
                 [DataSourceRemoved d (array_indexOf (dataSources s) (Some d)), DestroyCalled d]\<rparr>)
         \<and> 0 \<le> array_indexOf (dataSources s) (Some d)
         \<and> array_indexOf (dataSources s) (Some d) < int (length (dataSources s))
         \<and> dataSources s ! nat (array_indexOf (dataSources s) (Some d)) = d
         \<and> d \<notin> set (take (nat (array_indexOf (dataSources s) (Some d))) (dataSources s))"
proof -
  from assms(1) obtain k where k: "k < length (dataSources s)"
      "array_indexOf (dataSources s) (Some d) = int k" "dataSources s ! k = d"
      "d \<notin> set (take k (dataSources s))"
    by (rule array_indexOf_member)
  from assms(2) have "destroy0 \<noteq> Some False" by auto
  with remove_member [OF assms(1), of destroy0] k show ?thesis by simp
qed

theorem remove_then_destroy_order_witness:
  "20 \<in> set (dataSources coll_ABC) \<and>
   fst (remove coll_ABC (Some 20) None) = Inr (Bool True) \<and>
   dataSources (snd (remove coll_ABC (Some 20) None)) = [10, 30] \<and>
   trace (snd (remove coll_ABC (Some 20) None)) =
     trace coll_ABC @ [DataSourceRemoved 20 1, DestroyCalled 20]"
proof -
  have m: "20 \<in> set (dataSources coll_ABC)"
    by (simp add: coll_ABC_fields)
  have ix: "array_indexOf [10, 20, 30] (Some 20) = 1"
    by (simp add: array_indexOf_def)
  have pe: "pass_events (coll_ABC\<lparr>dataSources := [10, 30]\<rparr>) = []"
    by (simp add: pass_events_def coll_ABC_fields transitioned_def)
  from remove_then_destroy_order [OF m, of None] m show ?thesis
    by (simp add: ix pe update_dataSources coll_ABC_fields)
qed

text \<open>
  C4, as stated: after every successful mutating operation the data source at index \<open>i\<close> has
  the stored position \<open>i\<close>. After A is added twice to a fresh collection, both calls
  succeeding, the array is [A, A] and the one stored position of A is 1: the data source at
  index 0 does not have the stored position 0.
\<close>

theorem stored_position_counterexample:
  "fst (add (DataSourceCollection store0) (Some 10) None) = Inr Undefined
   \<and> fst (add (snd (add (DataSourceCollection store0) (Some 10) None)) (Some 10) None) =
       Inr Undefined
   \<and> dataSources added_twice = [10, 10]
   \<and> dataSourceIndex (objs added_twice (dataSources added_twice ! 0)) = Some 1
   \<and> dataSourceIndex (objs added_twice (dataSources added_twice ! 0)) \<noteq> Some (int 0)"
  by (simp add: added_twice_def add_def DataSourceCollection_def store0_def update_def
        raiseEvent_def Let_def)

text \<open>
  C4, amended. Index consistency, restricted to arrays without duplicates, is an invariant:
  it holds of a fresh collection, the caller's assignments to \<^verbatim>\<open>show\<close> do not touch it, and
  every call keeps it, whatever its outcome. So after every successful mutating operation
  (add, remove, removeAll, raise, lower, raiseToTop, lowerToBottom), provided the array
  then holds no data source twice, the data source at each index \<open>i\<close> has the stored
  position \<open>i\<close>. (\<^verbatim>\<open>add\<close> accepts a data source that is already a member; the one stored
  position of the data source added is then the index of its last occurrence.)
\<close>

theorem positions_after_mutation:
  assumes "distinct (dataSources s) \<longrightarrow> position_invariant s"
  shows "(mutating c \<and> fst (prototype_call s c) = Inr v \<and>
          distinct (dataSources (snd (prototype_call s c))) \<longrightarrow>
            (\<forall>k<length (dataSources (snd (prototype_call s c))).
               dataSourceIndex
                 (objs (snd (prototype_call s c)) (dataSources (snd (prototype_call s c)) ! k)) =
               Some (int k)))
       \<and> (distinct (dataSources (snd (prototype_call s c))) \<longrightarrow>
            position_invariant (snd (prototype_call s c)))
       \<and> position_invariant (DataSourceCollection hp)
       \<and> position_invariant (set_show s h b) = position_invariant s
       \<and> (valid_index s i \<longrightarrow>
            (\<exists>k<length (dataSources (snd (add s (Some x) i))).
               dataSources (snd (add s (Some x) i)) ! k = x \<and>
               x \<notin> set (drop (Suc k) (dataSources (snd (add s (Some x) i)))) \<and>
               dataSourceIndex (objs (snd (add s (Some x) i)) x) = Some (int k)))"
proof -
  have main: "position_invariant (snd (prototype_call s c))"
    if d: "distinct (dataSources (snd (prototype_call s c)))"
  proof (cases c)
    case (Add x i)
    with d assms show ?thesis by (simp add: positions_add)
  next
    case (Remove x b)
    with d assms show ?thesis by (simp add: positions_remove)
  next
    case (RemoveAll b)
    then show ?thesis by (simp add: empty_positions removeAll_dataSources)
  next
    case (Raise x)
    with d assms show ?thesis by (simp add: positions_reorder)
  next
    case (Lower x)
    with d assms show ?thesis by (simp add: positions_reorder)
  next
    case (RaiseToTop x)
    with d assms show ?thesis by (simp add: positions_reorder)
  next
    case (LowerToBottom x)
    with d assms show ?thesis by (simp add: positions_reorder)
  next
    case Destroy
    then show ?thesis by (simp add: empty_positions destroy_dataSources)
  qed (use assms d in \<open>simp_all add: queries_unchanged\<close>)
  have init: "position_invariant (DataSourceCollection hp)"
    by (simp add: empty_positions DataSourceCollection_def)
  have dup: "\<exists>k<length (dataSources (snd (add s (Some x) i))).
               dataSources (snd (add s (Some x) i)) ! k = x \<and>
               x \<notin> set (drop (Suc k) (dataSources (snd (add s (Some x) i)))) \<and>
               dataSourceIndex (objs (snd (add s (Some x) i)) x) = Some (int k)"
    if v: "valid_index s i"
  proof -
    have a: "dataSources (snd (add s (Some x) i)) = dataSources (inserted s x i)"
      and b: "objs (snd (add s (Some x) i)) = objs (update (inserted s x i))"
      by (simp_all add: add_valid [OF v] update_dataSources)
    have "x \<in> set (dataSources (inserted s x i))"
      by (simp add: set_inserted)
    from update_index_last [OF this] show ?thesis
      unfolding a b .
  qed
  from main init dup show ?thesis
    by (simp add: set_show_positions position_invariant_iff [symmetric])
qed

theorem positions_after_mutation_witness:
  "position_invariant coll_ABC
   \<and> mutating (Raise (Some 10))
   \<and> fst (prototype_call coll_ABC (Raise (Some 10))) = Inr Undefined
   \<and> dataSources (snd (prototype_call coll_ABC (Raise (Some 10)))) = [20, 10, 30]
   \<and> position_invariant (snd (prototype_call coll_ABC (Raise (Some 10))))
   \<and> dataSourceIndex (objs (snd (prototype_call coll_ABC (Raise (Some 10)))) 20) = Some 0
   \<and> dataSourceIndex (objs (snd (prototype_call coll_ABC (Raise (Some 10)))) 10) = Some 1
   \<and> valid_index coll_ABC None
   \<and> dataSources (snd (add coll_ABC (Some 10) None)) = [10, 20, 30, 10]
   \<and> dataSourceIndex (objs (snd (add coll_ABC (Some 10) None)) 10) = Some 3"
proof -
  let ?s' = "snd (prototype_call coll_ABC (Raise (Some 10)))"
  let ?a = "snd (add coll_ABC (Some 10) None)"
  have ix: "array_indexOf [10, 20, 30] (Some 10) = 0"
    by (simp add: array_indexOf_def)
  have p: "position_invariant coll_ABC"
    by (simp add: position_invariant_def coll_ABC_fields)
  have r: "raise coll_ABC (Some 10) =
      (Inr Undefined, after_pass (swapped coll_ABC 0 (Suc 0)) (DataSourceMoved 10 1 0))"
    using raise_member [of 0 coll_ABC 10] by (simp add: coll_ABC_fields ix)
  have f: "fst (prototype_call coll_ABC (Raise (Some 10))) = Inr Undefined"
    by (simp add: r)
  have ds: "dataSources ?s' = [20, 10, 30]"
    by (simp add: r after_pass_fields swapped_def coll_ABC_fields)
  have d: "distinct (dataSources ?s')"
    unfolding ds by simp
  have m: "mutating (Raise (Some 10))" by simp
  have v: "valid_index coll_ABC None"
    by (simp add: valid_index_def)
  have da: "dataSources ?a = [10, 20, 30, 10]"
    by (simp add: add_valid [OF v] update_dataSources inserted_def insertion_index_def
          coll_ABC_fields)
  have q: "distinct (dataSources coll_ABC) \<longrightarrow> position_invariant coll_ABC"
    using p by simp
  note th = positions_after_mutation
    [OF q, where c = "Raise (Some 10)" and v = Undefined and x = 10 and i = None]
  from th d have inv: "position_invariant ?s'"
    by blast
  from th m f d
  have "\<forall>k<length (dataSources ?s').
          dataSourceIndex (objs ?s' (dataSources ?s' ! k)) = Some (int k)"
    by blast
  then have a: "\<forall>k<3. dataSourceIndex (objs ?s' ([20, 10, 30] ! k)) = Some (int k)"
    by (simp only: ds) simp
  have a0: "dataSourceIndex (objs ?s' ([20, 10, 30] ! 0)) = Some (int 0)"
    by (intro a [rule_format]) simp
  have a1: "dataSourceIndex (objs ?s' ([20, 10, 30] ! 1)) = Some (int 1)"
    by (intro a [rule_format]) simp
  from th v have "\<exists>k<length (dataSources ?a). dataSources ?a ! k = 10 \<and>
      10 \<notin> set (drop (Suc k) (dataSources ?a)) \<and>
      dataSourceIndex (objs ?a 10) = Some (int k)"
    by blast
  then obtain k where k: "k < length (dataSources ?a)" "dataSources ?a ! k = 10"
      "10 \<notin> set (drop (Suc k) (dataSources ?a))"
      "dataSourceIndex (objs ?a 10) = Some (int k)"
    by blast
  from k(1) have "k = 0 \<or> k = 1 \<or> k = 2 \<or> k = 3"
    unfolding da by auto
  with k(3) have "k = 3"
    unfolding da by auto
  with k(4) have a3: "dataSourceIndex (objs ?a 10) = Some 3"
    by simp
  from a0 a1 a3 p m f ds inv v da show ?thesis
    by simp
qed

text \<open>
  C5. The pass raises a shown-or-hidden event for exactly the data sources of the array
  whose \<^verbatim>\<open>show\<close> differs from a defined \<^verbatim>\<open>_show\<close> when the pass starts (a data source
  whose \<^verbatim>\<open>_show\<close> is still undefined raises none), one event each; the events follow the
  whole walk (they carry the position stored by the completed walk), in the order in which
  the walk first met the data sources, and each carries the data source, its stored
  position after the walk and its \<^verbatim>\<open>show\<close> value. The stored position is an index at which
  the data source sits, and where the array holds no reference twice it is the index. The
  witness is the spec's example: A, B, C added, B's \<^verbatim>\<open>show\<close> flipped to true, and the next
  pass raises exactly the event (B, 1, true).
\<close>

theorem update_shown_or_hidden:
  "trace (update s) =
     trace s @ map (\<lambda>d. DataSourceShownOrHidden d (dataSourceIndex (objs (update s) d))
                          (show_cur (objs s d)))
                (filter (transitioned (objs s)) (first_occurrences (dataSources s)))
   \<and> distinct (filter (transitioned (objs s)) (first_occurrences (dataSources s)))
   \<and> set (filter (transitioned (objs s)) (first_occurrences (dataSources s))) =
       {d \<in> set (dataSources s). show_cur (objs s d) \<noteq> show_last (objs s d) \<and> show_last (objs s d) \<noteq> None}
   \<and> (\<forall>d \<in> set (dataSources s).
         show_cur (objs (update s) d) = show_cur (objs s d) \<and>
         (\<exists>k<length (dataSources s). dataSources s ! k = d \<and>
            dataSourceIndex (objs (update s) d) = Some (int k)))
   \<and> (distinct (dataSources s) \<longrightarrow>
         first_occurrences (dataSources s) = dataSources s \<and>
         (\<forall>k<length (dataSources s).
            dataSourceIndex (objs (update s) (dataSources s ! k)) = Some (int k)))"
proof (intro conjI ballI impI allI)
  show "trace (update s) =
     trace s @ map (\<lambda>d. DataSourceShownOrHidden d (dataSourceIndex (objs (update s) d))
                          (show_cur (objs s d)))
                (filter (transitioned (objs s)) (first_occurrences (dataSources s)))"
    by (rule update_trace)
  show "distinct (filter (transitioned (objs s)) (first_occurrences (dataSources s)))"
    by (simp add: distinct_first_occurrences)
  show "set (filter (transitioned (objs s)) (first_occurrences (dataSources s))) =
       {d \<in> set (dataSources s). show_cur (objs s d) \<noteq> show_last (objs s d) \<and> show_last (objs s d) \<noteq> None}"
    by (simp add: set_first_occurrences transitioned_def)
next
  fix d assume "d \<in> set (dataSources s)"
  then show "\<exists>k<length (dataSources s). dataSources s ! k = d \<and>
            dataSourceIndex (objs (update s) d) = Some (int k)"
    by (rule update_index_ex)
next
  fix d show "show_cur (objs (update s) d) = show_cur (objs s d)"
    by (rule update_show_cur)
next
  assume "distinct (dataSources s)"
  then show "first_occurrences (dataSources s) = dataSources s"
    by (rule first_occurrences_distinct)
next
  fix k assume "distinct (dataSources s)" "k < length (dataSources s)"
  then show "dataSourceIndex (objs (update s) (dataSources s ! k)) = Some (int k)"
    by (rule update_index_distinct)
qed

theorem update_shown_or_hidden_witness:
  "distinct (dataSources (set_show coll_ABC 20 (Some True))) \<and>
   trace (update (set_show coll_ABC 20 (Some True))) =
     trace (set_show coll_ABC 20 (Some True)) @ [DataSourceShownOrHidden 20 (Some 1) (Some True)]"
proof -
  let ?s = "set_show coll_ABC 20 (Some True)"
  have ds: "dataSources ?s = [10, 20, 30]"
    by (simp add: set_show_def coll_ABC_fields)
  have d: "distinct (dataSources ?s)"
    by (simp add: ds)
  have fl: "filter (transitioned (objs ?s)) [10, 20, 30] = [20]"
    by (simp add: set_show_def coll_ABC_fields transitioned_def)
  have sc: "show_cur (objs ?s 20) = Some True"
    by (simp add: set_show_def)
  note th = update_shown_or_hidden [of ?s]
  from th d have "first_occurrences (dataSources ?s) = dataSources ?s"
    by blast
  then have fo: "first_occurrences [10, 20, 30] = [10, 20, 30]"
    unfolding ds .
  from th d have "\<forall>k<length (dataSources ?s).
      dataSourceIndex (objs (update ?s) (dataSources ?s ! k)) = Some (int k)"
    by blast
  moreover have "1 < length (dataSources ?s)"
    by (simp add: ds)
  ultimately have "dataSourceIndex (objs (update ?s) (dataSources ?s ! 1)) = Some (int 1)"
    by blast
  then have ix: "dataSourceIndex (objs (update ?s) 20) = Some 1"
    by (simp add: ds)
  from th have "trace (update ?s) =
     trace ?s @ map (\<lambda>d. DataSourceShownOrHidden d (dataSourceIndex (objs (update ?s) d))
                          (show_cur (objs ?s d)))
                (filter (transitioned (objs ?s)) (first_occurrences (dataSources ?s)))"
    by (rule conjunct1)
  then have "trace (update ?s) =
     trace ?s @ [DataSourceShownOrHidden 20 (Some 1) (Some True)]"
    by (simp only: ds fo fl list.map ix sc)
  with d show ?thesis by simp
qed

text \<open>
  C6. \<^verbatim>\<open>removeAll(destroy)\<close> raises one removed event for each data source of the array, in
  array order, each with the index the data source has in the array; when \<^verbatim>\<open>destroy\<close> is true
  or omitted, the data source's \<^verbatim>\<open>destroy()\<close> is called right after its own event. The
  loop leaves the array as it was, and only then is the array emptied. The store of the
  data sources is unchanged and no shown-or-hidden event is raised: no pass runs.
\<close>

theorem removeAll_notifies_each:
  "removeAll_ds s destroy0 =
     (Inr Undefined,
      s\<lparr>dataSources := [],
        trace := trace s @ removeAll_events (dataSources s) (destroy0 \<noteq> Some False)\<rparr>)
   \<and> removeAll_loop (dataSources s) 0 (destroy0 \<noteq> Some False) s =
       s\<lparr>trace := trace s @ removeAll_events (dataSources s) (destroy0 \<noteq> Some False)\<rparr>"
  by (cases destroy0)
     (simp_all add: removeAll_ds_def removeAll_loop_eq removeAll_events_def defaultValue_def)

theorem removeAll_notifies_each_witness:
  "removeAll_ds coll_ABC None =
     (Inr Undefined,
      coll_ABC\<lparr>dataSources := [],
        trace := trace coll_ABC @
          [DataSourceRemoved 10 0, DestroyCalled 10, DataSourceRemoved 20 1, DestroyCalled 20,
           DataSourceRemoved 30 2, DestroyCalled 30]\<rparr>)"
proof -
  have ev: "removeAll_events (dataSources coll_ABC) True =
      [DataSourceRemoved 10 0, DestroyCalled 10, DataSourceRemoved 20 1, DestroyCalled 20,
       DataSourceRemoved 30 2, DestroyCalled 30]"
    by (simp add: removeAll_events_def coll_ABC_fields)
  from removeAll_notifies_each [of coll_ABC None] show ?thesis
    by (simp add: ev)
qed

text \<open>
  C7, as stated: in every collection \<^verbatim>\<open>raise\<close> of the topmost member is a no-op. In the
  array [A, A], which two calls of \<^verbatim>\<open>add\<close> build, A is the topmost member; \<^verbatim>\<open>raise(A)\<close>
  finds A at index 0, exchanges the two slots, runs the pass and raises the moved event
  (A, 1, 0).
\<close>

theorem raise_topmost_duplicate_counterexample:
  "dataSources added_twice = [10, 10]
   \<and> last (dataSources added_twice) = 10
   \<and> fst (raise added_twice (Some 10)) = Inr Undefined
   \<and> snd (raise added_twice (Some 10)) \<noteq> added_twice
   \<and> trace (snd (raise added_twice (Some 10))) = trace added_twice @ [DataSourceMoved 10 1 0]"
proof -
  have ix: "array_indexOf [10, 10] (Some 10) = 0"
    by (simp add: array_indexOf_def)
  have sw: "dataSources (swapped added_twice 0 (Suc 0)) = [10, 10]"
    "objs (swapped added_twice 0 (Suc 0)) = objs added_twice"
    "trace (swapped added_twice 0 (Suc 0)) = trace added_twice"
    by (simp_all add: swapped_def added_twice_fields(1))
  have pe: "pass_events (swapped added_twice 0 (Suc 0)) = []"
    by (simp add: pass_events_def sw added_twice_fields(3) transitioned_def)
  have r: "raise added_twice (Some 10) =
      (Inr Undefined, after_pass (swapped added_twice 0 (Suc 0)) (DataSourceMoved 10 1 0))"
    using raise_member [of 0 added_twice 10] by (simp add: added_twice_fields ix)
  have t: "trace (snd (raise added_twice (Some 10))) = trace added_twice @ [DataSourceMoved 10 1 0]"
    by (simp add: r after_pass_fields pe sw)
  then have "snd (raise added_twice (Some 10)) \<noteq> added_twice"
    by auto
  with t show ?thesis
    by (simp add: r added_twice_fields)
qed

text \<open>
  C7, amended. \<^verbatim>\<open>raise\<close> and \<^verbatim>\<open>lower\<close> look the data source up with \<^verbatim>\<open>indexOf\<close>, so a
  member's place is the index of its first occurrence. \<^verbatim>\<open>raise\<close> of a member whose first
  occurrence is at the last index (in an array without duplicates: the topmost member) and
  \<^verbatim>\<open>lower\<close> of the member at index 0 (the bottommost member) return with the state
  unchanged: nothing moves and no event is raised. \<^verbatim>\<open>raise\<close> of any other member exchanges
  its first occurrence with the successor, runs the pass and raises exactly one moved
  event, with the data source, the new index and the old index; \<^verbatim>\<open>lower\<close> of any other
  member does the same with the predecessor. On a data source that is not in the array both
  throw "dataSource is not in this collection." and change nothing. The witness is the
  spec's example on [A, B, C].
\<close>

theorem raise_lower_boundaries:
  "(d \<in> set (dataSources s) \<and>
      array_indexOf (dataSources s) (Some d) = int (length (dataSources s)) - 1 \<longrightarrow>
      raise s (Some d) = (Inr Undefined, s))
   \<and> (array_indexOf (dataSources s) (Some d) = 0 \<longrightarrow> lower s (Some d) = (Inr Undefined, s))
   \<and> (d \<in> set (dataSources s) \<and>
        array_indexOf (dataSources s) (Some d) \<noteq> int (length (dataSources s)) - 1 \<longrightarrow>
        raise s (Some d) =
          (Inr Undefined,
           after_pass (swapped s (first_index s d) (Suc (first_index s d)))
             (DataSourceMoved d (int (first_index s d) + 1) (int (first_index s d)))) \<and>
        Suc (first_index s d) < length (dataSources s) \<and>
        dataSources s ! first_index s d = d \<and>
        dataSources (snd (raise s (Some d))) =
          (dataSources s)[first_index s d := dataSources s ! Suc (first_index s d),
                          Suc (first_index s d) := d])
   \<and> (d \<in> set (dataSources s) \<and> array_indexOf (dataSources s) (Some d) \<noteq> 0 \<longrightarrow>
        lower s (Some d) =
          (Inr Undefined,
           after_pass (swapped s (first_index s d) (first_index s d - 1))
             (DataSourceMoved d (int (first_index s d) - 1) (int (first_index s d)))) \<and>
        0 < first_index s d \<and>
        dataSources s ! first_index s d = d \<and>
        dataSources (snd (lower s (Some d))) =
          (dataSources s)[first_index s d := dataSources s ! (first_index s d - 1),
                          first_index s d - 1 := d])
   \<and> (d \<notin> set (dataSources s) \<longrightarrow>
        raise s (Some d) = (Inl (DeveloperError ''dataSource is not in this collection.''), s) \<and>
        lower s (Some d) = (Inl (DeveloperError ''dataSource is not in this collection.''), s))
   \<and> (distinct (dataSources s) \<and> dataSources s \<noteq> [] \<longrightarrow>
        raise s (Some (last (dataSources s))) = (Inr Undefined, s))
   \<and> (dataSources s \<noteq> [] \<longrightarrow> lower s (Some (hd (dataSources s))) = (Inr Undefined, s))"
proof (intro conjI impI)
  assume "d \<in> set (dataSources s) \<and>
      array_indexOf (dataSources s) (Some d) = int (length (dataSources s)) - 1"
  then show "raise s (Some d) = (Inr Undefined, s)"
    by (simp add: raise_top)
next
  assume "array_indexOf (dataSources s) (Some d) = 0"
  then show "lower s (Some d) = (Inr Undefined, s)"
    by (rule lower_bottom)
next
  assume a: "d \<in> set (dataSources s) \<and>
        array_indexOf (dataSources s) (Some d) \<noteq> int (length (dataSources s)) - 1"
  then have m: "d \<in> set (dataSources s)"
    and n: "array_indexOf (dataSources s) (Some d) \<noteq> int (length (dataSources s)) - 1"
    by simp_all
  show r: "raise s (Some d) =
          (Inr Undefined,
           after_pass (swapped s (first_index s d) (Suc (first_index s d)))
             (DataSourceMoved d (int (first_index s d) + 1) (int (first_index s d))))"
    by (rule raise_inner(1) [OF m n])
  show "Suc (first_index s d) < length (dataSources s)"
    by (rule raise_inner(2) [OF m n])
  show x: "dataSources s ! first_index s d = d"
    by (rule first_index_member(3) [OF m])
  show "dataSources (snd (raise s (Some d))) =
          (dataSources s)[first_index s d := dataSources s ! Suc (first_index s d),
                          Suc (first_index s d) := d]"
    by (simp add: r after_pass_fields swapped_def x)
next
  assume a: "d \<in> set (dataSources s) \<and> array_indexOf (dataSources s) (Some d) \<noteq> 0"
  then have m: "d \<in> set (dataSources s)"
    and n: "array_indexOf (dataSources s) (Some d) \<noteq> 0"
    by simp_all
  show r: "lower s (Some d) =
          (Inr Undefined,
           after_pass (swapped s (first_index s d) (first_index s d - 1))
             (DataSourceMoved d (int (first_index s d) - 1) (int (first_index s d))))"
    by (rule lower_inner(1) [OF m n])
  show "0 < first_index s d"
    by (rule lower_inner(2) [OF m n])
  show x: "dataSources s ! first_index s d = d"
    by (rule first_index_member(3) [OF m])
  show "dataSources (snd (lower s (Some d))) =
          (dataSources s)[first_index s d := dataSources s ! (first_index s d - 1),
                          first_index s d - 1 := d]"
    by (simp add: r after_pass_fields swapped_def x)
next
  assume "d \<notin> set (dataSources s)"
  then show "raise s (Some d) = (Inl (DeveloperError ''dataSource is not in this collection.''), s)"
    "lower s (Some d) = (Inl (DeveloperError ''dataSource is not in this collection.''), s)"
    by (simp_all add: reorder_absent)
next
  assume "distinct (dataSources s) \<and> dataSources s \<noteq> []"
  then show "raise s (Some (last (dataSources s))) = (Inr Undefined, s)"
    by (simp add: raise_top array_indexOf_last)
next
  assume "dataSources s \<noteq> []"
  then show "lower s (Some (hd (dataSources s))) = (Inr Undefined, s)"
    by (simp add: lower_bottom array_indexOf_hd)
qed

theorem raise_lower_boundaries_witness:
  "raise coll_ABC (Some 30) = (Inr Undefined, coll_ABC)
   \<and> lower coll_ABC (Some 10) = (Inr Undefined, coll_ABC)
   \<and> fst (raise coll_ABC (Some 10)) = Inr Undefined
   \<and> dataSources (snd (raise coll_ABC (Some 10))) = [20, 10, 30]
   \<and> trace (snd (raise coll_ABC (Some 10))) = trace coll_ABC @ [DataSourceMoved 10 1 0]
   \<and> raise coll_ABC (Some 40) =
        (Inl (DeveloperError ''dataSource is not in this collection.''), coll_ABC)"
proof -
  have ix: "array_indexOf [10, 20, 30] (Some 30) = 2" "array_indexOf [10, 20, 30] (Some 10) = 0"
    by (simp_all add: array_indexOf_def)
  have fi: "first_index coll_ABC 10 = 0"
    by (simp add: first_index_def coll_ABC_fields ix)
  have pe: "pass_events (swapped coll_ABC 0 (Suc 0)) = []"
    by (simp add: pass_events_def swapped_def coll_ABC_fields transitioned_def)
  note th = raise_lower_boundaries [of _ coll_ABC]
  from th [of 30] have a: "raise coll_ABC (Some 30) = (Inr Undefined, coll_ABC)"
    by (simp add: coll_ABC_fields ix)
  from th [of 10] have b: "lower coll_ABC (Some 10) = (Inr Undefined, coll_ABC)"
    by (simp add: coll_ABC_fields ix)
  from th [of 10] have c: "raise coll_ABC (Some 10) =
      (Inr Undefined, after_pass (swapped coll_ABC 0 (Suc 0)) (DataSourceMoved 10 1 0))"
    by (simp add: coll_ABC_fields ix fi)
  from th [of 40] have d: "raise coll_ABC (Some 40) =
        (Inl (DeveloperError ''dataSource is not in this collection.''), coll_ABC)"
    by (simp add: coll_ABC_fields)
  show ?thesis
    by (simp add: a b c d after_pass_fields pe) (simp add: swapped_def coll_ABC_fields)
qed

text \<open>
  C8. A failing \<^verbatim>\<open>add\<close> (data source missing, index negative or beyond the length) throws
  before it changes anything: the state after it is the state before it, array, store and
  trace. \<^verbatim>\<open>remove\<close> never throws; for a data source that is not in the array it returns
  false and changes nothing (no event, no \<^verbatim>\<open>destroy()\<close> call).
\<close>

theorem failed_calls_change_nothing:
  "add s None index = (Inl (DeveloperError ''dataSource is required.''), s)
   \<and> (i < 0 \<longrightarrow>
        add s (Some d) (Some i) =
          (Inl (DeveloperError ''index must be greater than or equal to zero.''), s))
   \<and> (int (length (dataSources s)) < i \<longrightarrow>
        add s (Some d) (Some i) =
          (Inl (DeveloperError
             ''index must be less than or equal to the number of data sources.''), s))
   \<and> (\<forall>e. fst (add s x index) = Inl e \<longrightarrow> snd (add s x index) = s)
   \<and> (d \<notin> set (dataSources s) \<longrightarrow> remove s (Some d) destroy0 = (Inr (Bool False), s))
   \<and> remove s None destroy0 = (Inr (Bool False), s)
   \<and> (fst (remove s x destroy0) = Inr (Bool False) \<longrightarrow> snd (remove s x destroy0) = s)
   \<and> (\<forall>e. fst (remove s x destroy0) \<noteq> Inl e)"
proof (intro conjI impI allI)
  show "add s None index = (Inl (DeveloperError ''dataSource is required.''), s)"
    by (rule add_missing)
  show "add s (Some d) (Some i) =
          (Inl (DeveloperError ''index must be greater than or equal to zero.''), s)"
    if "i < 0"
    using that by (simp add: add_def)
  show "add s (Some d) (Some i) =
          (Inl (DeveloperError
             ''index must be less than or equal to the number of data sources.''), s)"
    if "int (length (dataSources s)) < i"
    using that by (simp add: add_def)
  show "snd (add s x index) = s" if "fst (add s x index) = Inl e" for e
  proof (cases x)
    case None
    then show ?thesis by (simp add: add_missing)
  next
    case (Some h)
    show ?thesis
    proof (cases "valid_index s index")
      case True
      from add_valid [OF True, of h] that Some show ?thesis by simp
    next
      case False
      from add_invalid [OF False, of x] show ?thesis by auto
    qed
  qed
  show "remove s (Some d) destroy0 = (Inr (Bool False), s)" if "d \<notin> set (dataSources s)"
    using that by (rule remove_absent)
  show "remove s None destroy0 = (Inr (Bool False), s)"
    by (rule remove_undefined)
  show "snd (remove s x destroy0) = s" if "fst (remove s x destroy0) = Inr (Bool False)"
  proof (cases x)
    case None
    then show ?thesis by (simp add: remove_undefined)
  next
    case (Some h)
    show ?thesis
    proof (cases "h \<in> set (dataSources s)")
      case True
      from remove_member [OF True, of destroy0] that Some show ?thesis by simp
    next
      case False
      with Some show ?thesis by (simp add: remove_absent)
    qed
  qed
  show "fst (remove s x destroy0) \<noteq> Inl e" for e
  proof (cases x)
    case None
    then show ?thesis by (simp add: remove_undefined)
  next
    case (Some h)
    show ?thesis
    proof (cases "h \<in> set (dataSources s)")
      case True
      from remove_member [OF True, of destroy0] Some show ?thesis by simp
    next
      case False
      with Some show ?thesis by (simp add: remove_absent)
    qed
  qed
qed

theorem failed_calls_change_nothing_witness:
  "add coll_ABC None (Some 1) = (Inl (DeveloperError ''dataSource is required.''), coll_ABC)
   \<and> add coll_ABC (Some 40) (Some (- 1)) =
        (Inl (DeveloperError ''index must be greater than or equal to zero.''), coll_ABC)
   \<and> add coll_ABC (Some 40) (Some 4) =
        (Inl (DeveloperError
           ''index must be less than or equal to the number of data sources.''), coll_ABC)
   \<and> remove coll_ABC (Some 40) None = (Inr (Bool False), coll_ABC)"
proof -
  have a: "int (length (dataSources coll_ABC)) < 4" "40 \<notin> set (dataSources coll_ABC)"
    by (simp_all add: coll_ABC_fields)
  have b: "(- 1 :: int) < 0" by simp
  from failed_calls_change_nothing
         [where s = coll_ABC and index = "Some 1" and i = "- 1" and d = 40 and x = None
            and ?destroy0.0 = None] b
       failed_calls_change_nothing
         [where s = coll_ABC and index = "Some 1" and i = 4 and d = 40 and x = None
            and ?destroy0.0 = None] a
  show ?thesis by blast
qed

text \<open>
  C9. \<^verbatim>\<open>destroy()\<close> is \<^verbatim>\<open>removeAll(true)\<close> followed by \<^verbatim>\<open>destroyObject\<close>, which marks the
  instance unusable. On the instance \<^verbatim>\<open>destroy()\<close> leaves, every call other than the
  is-destroyed check (\<^verbatim>\<open>add\<close> among them) throws the destroyed-state error and changes
  nothing, and the is-destroyed check still answers. (The marking is that of the spec.)
\<close>

theorem destroy_makes_unusable:
  "destroy s = (Inr Undefined, (snd (removeAll_ds s (Some True)))\<lparr>unusable := True\<rparr>)
   \<and> (\<forall>c. c \<noteq> IsDestroyed \<longrightarrow>
         invoke (snd (destroy s)) c =
           (Inl (DeveloperError ''This object was destroyed, i.e., destroy() was called.''),
            snd (destroy s)))
   \<and> (\<exists>b. fst (invoke (snd (destroy s)) IsDestroyed) = Inr (Bool b))
   \<and> (\<not> unusable s \<longrightarrow> invoke s Destroy = destroy s)"
proof (intro conjI allI impI)
  show d: "destroy s = (Inr Undefined, (snd (removeAll_ds s (Some True)))\<lparr>unusable := True\<rparr>)"
    by (simp add: destroy_def destroyObject_def split: prod.splits)
  show "invoke (snd (destroy s)) c =
           (Inl (DeveloperError ''This object was destroyed, i.e., destroy() was called.''),
            snd (destroy s))" if "c \<noteq> IsDestroyed" for c
    using that by (cases c) (simp_all add: invoke_def d)
  show "\<exists>b. fst (invoke (snd (destroy s)) IsDestroyed) = Inr (Bool b)"
    by (auto simp: invoke_def d)
  show "invoke s Destroy = destroy s" if "\<not> unusable s"
    using that by (simp add: invoke_def)
qed

theorem destroy_makes_unusable_witness:
  "\<not> unusable coll_ABC
   \<and> fst (invoke coll_ABC Destroy) = Inr Undefined
   \<and> dataSources (snd (invoke coll_ABC Destroy)) = []
   \<and> invoke (snd (invoke coll_ABC Destroy)) (Add (Some 40) None) =
       (Inl (DeveloperError ''This object was destroyed, i.e., destroy() was called.''),
        snd (invoke coll_ABC Destroy))"
proof -
  have u: "\<not> unusable coll_ABC" by (simp add: coll_ABC_fields)
  have n: "Add (Some 40) None \<noteq> IsDestroyed" by simp
  from destroy_makes_unusable [of coll_ABC] u n
  have "invoke coll_ABC Destroy = destroy coll_ABC"
    and "destroy coll_ABC =
      (Inr Undefined, (snd (removeAll_ds coll_ABC (Some True)))\<lparr>unusable := True\<rparr>)"
    and "invoke (snd (destroy coll_ABC)) (Add (Some 40) None) =
       (Inl (DeveloperError ''This object was destroyed, i.e., destroy() was called.''),
        snd (destroy coll_ABC))"
    by blast+
  with u show ?thesis by (simp add: removeAll_dataSources)
qed




end
